theory Spec2Isabelle
  imports Main
begin

section \<open>Python values, tensors and errors\<close>

text \<open>
  The transforms of \<^verbatim>\<open>reagent/preprocessing/transforms.py\<close> read and write the fields of
  a Python dict, most of which are torch tensors. An exception is a value on the left
  of a sum; the constructors are the Python exception classes that the transforms and the
  torch operators they call can raise. \<open>SeqKeyError\<close> is the \<open>KeyError\<close> of a dict that
  is keyed by integers, \<open>ReferenceError\<close> is the lookup of a tensor object that the heap
  does not hold (it cannot happen in Python and is a branch of the model only), and
  \<open>CollaboratorError\<close> is any exception raised inside the normalization or sparse
  collaborators, whose code is outside these transforms.
\<close>

datatype error =
    AssertionError
  | KeyError string
  | SeqKeyError int
  | NotImplementedError
  | ValueError
  | RuntimeError
  | TypeError
  | IndexError
  | AttributeError
  | ReferenceError
  | CollaboratorError

text \<open>
  A tensor is its shape and its elements in row-major order (a contiguous tensor). The
  element type is a parameter; device and dtype are not modelled: every tensor is taken
  to live on the device its transform is configured with.
\<close>

record 'a tensor =
  shape :: "nat list"
  elems :: "'a list"

definition numel :: "nat list \<Rightarrow> nat" where
  "numel s = prod_list s"

definition wf_tensor :: "'a tensor \<Rightarrow> bool" where
  "wf_tensor t = (length (elems t) = numel (shape t))"

text \<open>
  Tensors are objects: a field holds a reference to one, and two fields may hold the
  same reference. The heap is the list of all tensor objects, a reference is an index
  into it, and a new tensor is appended.
\<close>

type_synonym 'a heap = "'a tensor list"

definition alloc :: "'a tensor \<Rightarrow> 'a heap \<Rightarrow> nat \<times> 'a heap" where
  "alloc t h = (length h, h @ [t])"

definition deref :: "'a heap \<Rightarrow> nat \<Rightarrow> error + 'a tensor" where
  "deref h r = (if r < length h then Inr (h ! r) else Inl ReferenceError)"

text \<open>
  The values a field can hold: \<open>None\<close>, a torch tensor, a tuple (a value and its
  presence mask), a list of scalars (the \<open>mdp_id\<close> column), a numpy array, and a dict
  from sequence id (or feature id) to a pair of an offsets tensor and a payload, the
  format \<open>Dict[Int, Tuple[Tensor, T]]\<close> of the docstring of \<open>FixedLengthSequences\<close>.
  Offsets are one-dimensional integer tensors that no transform writes to; they are kept
  by value, as the list of their elements.
\<close>

datatype 'a pyval =
    PNone
  | PTensor nat
  | PTuple "'a pyval list"
  | PList "'a list"
  | PArray "'a tensor"
  | PDict "(int \<times> int list \<times> 'a pyval) list"

type_synonym 'a fields = "string \<rightharpoonup> 'a pyval"

text \<open>
  The loop \<open>for k in keys: body\<close>, stopping at the first exception. When a call raises,
  its result in the model is the exception alone: what the call had written before is
  not part of it, except where a definition says so.
\<close>

fun for_each :: "('k \<Rightarrow> 's \<Rightarrow> error + 's) \<Rightarrow> 'k list \<Rightarrow> 's \<Rightarrow> error + 's" where
  "for_each body [] s = Inr s"
| "for_each body (k # ks) s =
     (case body k s of Inl e \<Rightarrow> Inl e | Inr s' \<Rightarrow> for_each body ks s')"

text \<open>
  \<open>torch.arange(start, end, step)\<close>: a zero step and a step that points away from
  \<open>end\<close> raise; otherwise the result has \<open>ceil((end - start) / step)\<close> elements.
\<close>

definition arange :: "int \<Rightarrow> int \<Rightarrow> int \<Rightarrow> error + int list" where
  "arange start end step =
     (if step = 0 then Inl RuntimeError
      else if (0 < step \<and> end < start) \<or> (step < 0 \<and> start < end) then Inl RuntimeError
      else Inr (map (\<lambda>i. start + int i * step)
                  [0 ..< nat ((end - start + step - sgn step) div step)]))"

section \<open>FixedLengthSequences\<close>

record FixedLengthSequences =
  fls_keys :: "string list"
  fls_sequence_id :: int
  fls_to_keys :: "string list"
  fls_expected_length :: "int option"

text \<open>\<open>__init__\<close>: \<open>to_keys or keys\<close> takes \<open>keys\<close> for \<open>None\<close> and for the empty list.\<close>

definition FixedLengthSequences_init ::
  "string list \<Rightarrow> int \<Rightarrow> int option \<Rightarrow> string list option \<Rightarrow> error + FixedLengthSequences" where
  "FixedLengthSequences_init keys sequence_id expected_length to_keys =
     (let tk = (case to_keys of None \<Rightarrow> keys | Some l \<Rightarrow> if l = [] then keys else l)
      in if length tk = length keys
         then Inr \<lparr>fls_keys = keys, fls_sequence_id = sequence_id, fls_to_keys = tk,
                   fls_expected_length = expected_length\<rparr>
         else Inl AssertionError)"

text \<open>\<open>t.shape[0]\<close> of a tensor.\<close>

definition shape0 :: "'a tensor \<Rightarrow> error + int" where
  "shape0 t = (case shape t of [] \<Rightarrow> Inl IndexError | n # _ \<Rightarrow> Inr (int n))"

text \<open>\<open>t[0].shape[0]\<close> of a tensor or numpy array: the first row must exist and have a dimension.\<close>

definition row0_shape0 :: "'a tensor \<Rightarrow> error + int" where
  "row0_shape0 t =
     (case shape t of
        [] \<Rightarrow> Inl IndexError
      | n # s \<Rightarrow> if n = 0 then Inl IndexError
                 else (case s of [] \<Rightarrow> Inl IndexError | m # _ \<Rightarrow> Inr (int m)))"

text \<open>
  \<open>value[0].shape[0]\<close>, the length taken from the payload when the batch has one element.
  For the documented payload, a tuple of tensors, it is the first dimension of the first
  tensor.
\<close>

definition value0_shape0 :: "'a heap \<Rightarrow> 'a pyval \<Rightarrow> error + int" where
  "value0_shape0 h v =
     (case v of
        PNone \<Rightarrow> Inl TypeError
      | PTensor r \<Rightarrow> (case deref h r of Inl e \<Rightarrow> Inl e | Inr t \<Rightarrow> row0_shape0 t)
      | PTuple xs \<Rightarrow>
          (case xs of
             [] \<Rightarrow> Inl IndexError
           | x # _ \<Rightarrow>
               (case x of
                  PTensor r \<Rightarrow> (case deref h r of Inl e \<Rightarrow> Inl e | Inr t \<Rightarrow> shape0 t)
                | PArray t \<Rightarrow> shape0 t
                | _ \<Rightarrow> Inl AttributeError))
      | PList xs \<Rightarrow> (case xs of [] \<Rightarrow> Inl IndexError | _ # _ \<Rightarrow> Inl AttributeError)
      | PArray t \<Rightarrow> row0_shape0 t
      | PDict m \<Rightarrow> (case map_of m 0 of None \<Rightarrow> Inl (SeqKeyError 0) | Some _ \<Rightarrow> Inl AttributeError))"

text \<open>
  The expected length of one iteration: the cached (or configured) one when there is one,
  otherwise inferred, from the first two offsets when the batch has more than one element
  and from the payload when it has one, and stored on the instance.
\<close>

definition fls_expected ::
  "FixedLengthSequences \<Rightarrow> 'a heap \<Rightarrow> int list \<Rightarrow> 'a pyval \<Rightarrow> error + (int \<times> FixedLengthSequences)" where
  "fls_expected self h offsets v =
     (case fls_expected_length self of
        Some l \<Rightarrow> Inr (l, self)
      | None \<Rightarrow>
          (case (if 1 < length offsets then Inr (offsets ! 1 - offsets ! 0)
                 else value0_shape0 h v) of
             Inl e \<Rightarrow> Inl e
           | Inr l \<Rightarrow> Inr (l, self\<lparr>fls_expected_length := Some l\<rparr>)))"

text \<open>
  The body of the loop of \<open>__call__\<close> for one pair \<open>(key, to_key)\<close>. A field that is not a
  dict of sequences is outside the documented format and is reported as a type error.
\<close>

definition fls_step ::
  "string \<times> string \<Rightarrow> FixedLengthSequences \<times> 'a heap \<times> 'a fields \<Rightarrow>
   error + (FixedLengthSequences \<times> 'a heap \<times> 'a fields)" where
  "fls_step kt st =
     (case st of (self, h, data) \<Rightarrow>
      (case data (fst kt) of
         None \<Rightarrow> Inl (KeyError (fst kt))
       | Some (PDict m) \<Rightarrow>
           (case map_of m (fls_sequence_id self) of
              None \<Rightarrow> Inl (SeqKeyError (fls_sequence_id self))
            | Some (offsets, v) \<Rightarrow>
                (case fls_expected self h offsets v of
                   Inl e \<Rightarrow> Inl e
                 | Inr (l, self') \<Rightarrow>
                     (case arange 0 (int (length offsets) * l) l of
                        Inl e \<Rightarrow> Inl e
                      | Inr expected_offsets \<Rightarrow>
                          if expected_offsets = offsets
                          then Inr (self', h, data(snd kt \<mapsto> v))
                          else Inl AssertionError)))
       | Some _ \<Rightarrow> Inl TypeError))"

definition FixedLengthSequences_call ::
  "FixedLengthSequences \<Rightarrow> 'a heap \<Rightarrow> 'a fields \<Rightarrow>
   error + (FixedLengthSequences \<times> 'a heap \<times> 'a fields)" where
  "FixedLengthSequences_call self h data =
     for_each fls_step (zip (fls_keys self) (fls_to_keys self)) (self, h, data)"

section \<open>OneHotActions\<close>

text \<open>Sequencing of two computations that may raise.\<close>

definition and_then :: "error + 'a \<Rightarrow> ('a \<Rightarrow> error + 'b) \<Rightarrow> error + 'b" where
  "and_then m f = (case m of Inl e \<Rightarrow> Inl e | Inr x \<Rightarrow> f x)"

text \<open>
  The tensor a field holds, when the field holds a reference to a tensor of the heap.
\<close>

definition field_tensor :: "'a heap \<Rightarrow> 'a fields \<Rightarrow> string \<Rightarrow> 'a tensor option" where
  "field_tensor h data k =
     (case data k of
        Some (PTensor r) \<Rightarrow> if r < length h then Some (h ! r) else None
      | _ \<Rightarrow> None)"

text \<open>
  \<open>torch.nn.functional.one_hot(t, num_classes)\<close> on an integer tensor. An empty tensor
  needs a positive class count. Otherwise a negative element raises, \<open>num_classes = -1\<close>
  infers the count as the largest element plus one, and any other count must exceed every
  element. The result has one more dimension, of size the class count.
\<close>

definition one_hot :: "int tensor \<Rightarrow> int \<Rightarrow> error + int tensor" where
  "one_hot t num_classes =
     (if elems t = []
      then (if num_classes \<le> 0 then Inl RuntimeError
            else Inr \<lparr>shape = shape t @ [nat num_classes], elems = []\<rparr>)
      else if \<exists>x \<in> set (elems t). x < 0 then Inl RuntimeError
      else (let nc = (if num_classes = - 1 then Max (set (elems t)) + 1 else num_classes)
            in if \<exists>x \<in> set (elems t). nc \<le> x then Inl RuntimeError
               else Inr \<lparr>shape = shape t @ [nat nc],
                         elems = concat (map (\<lambda>x. map (\<lambda>j. if int j = x then 1 else 0)
                                                    [0 ..< nat nc]) (elems t))\<rparr>))"

text \<open>
  \<open>t.index_select(-1, index)\<close>: the rows of \<open>t\<close> along its last dimension, each reduced
  to the positions listed in \<open>index\<close>. An index outside the last dimension raises. (The
  transform applies it to a result of \<open>one_hot\<close>, which has at least one dimension.)
\<close>

definition index_select_last :: "'a tensor \<Rightarrow> int list \<Rightarrow> error + 'a tensor" where
  "index_select_last t index =
     (case shape t of
        [] \<Rightarrow> Inl IndexError
      | _ # _ \<Rightarrow>
          (let n = last (shape t);
               rows = map (\<lambda>i. take n (drop (i * n) (elems t)))
                          [0 ..< numel (butlast (shape t))]
           in if \<exists>j \<in> set index. j < 0 \<or> int n \<le> j then Inl IndexError
              else Inr \<lparr>shape = butlast (shape t) @ [length index],
                        elems = concat (map (\<lambda>row. map (\<lambda>j. row ! nat j) index) rows)\<rparr>))"

record OneHotActions =
  oha_keys :: "string list"
  oha_num_actions :: int

definition OneHotActions_init :: "string list \<Rightarrow> int \<Rightarrow> OneHotActions" where
  "OneHotActions_init keys num_actions = \<lparr>oha_keys = keys, oha_num_actions = num_actions\<rparr>"

text \<open>
  The body of the loop: \<open>data[k] = F.one_hot(data[k], num_actions + 1).index_select(-1,
  torch.arange(num_actions))\<close>. The result is a new tensor object.
\<close>

definition oha_step ::
  "OneHotActions \<Rightarrow> string \<Rightarrow> int heap \<times> int fields \<Rightarrow> error + (int heap \<times> int fields)" where
  "oha_step self k st =
     (case st of (h, data) \<Rightarrow>
      (case data k of
         None \<Rightarrow> Inl (KeyError k)
       | Some (PTensor r) \<Rightarrow>
           and_then (deref h r) (\<lambda>t.
           and_then (one_hot t (oha_num_actions self + 1)) (\<lambda>hot.
           and_then (arange 0 (oha_num_actions self) 1) (\<lambda>index.
           and_then (index_select_last hot index) (\<lambda>res.
             (case alloc res h of (r', h') \<Rightarrow> Inr (h', data(k \<mapsto> PTensor r')))))))
       | Some _ \<Rightarrow> Inl TypeError))"

definition OneHotActions_call ::
  "OneHotActions \<Rightarrow> int heap \<Rightarrow> int fields \<Rightarrow> error + (int heap \<times> int fields)" where
  "OneHotActions_call self h data = for_each (oha_step self) (oha_keys self) (h, data)"

section \<open>ColumnVector\<close>

record ColumnVector =
  cv_keys :: "string list"

definition ColumnVector_init :: "string list \<Rightarrow> ColumnVector" where
  "ColumnVector_init keys = \<lparr>cv_keys = keys\<rparr>"

text \<open>
  The value the transform works on, with a flag that tells a torch tensor (\<open>True\<close>) from
  a numpy array: the first component of a pair, the numpy array of a list, or the tensor
  itself. A pair is unpacked into two names, so a tuple of another length raises; the
  component of a pair must have the attribute \<open>ndim\<close> that the assertion reads; any other
  kind of value, a numpy array included, is not implemented.
\<close>

definition cv_value :: "'a heap \<Rightarrow> 'a pyval \<Rightarrow> error + ('a tensor \<times> bool)" where
  "cv_value h raw_value =
     (case raw_value of
        PTuple xs \<Rightarrow>
          (case xs of
             [v, presence] \<Rightarrow>
               (case v of
                  PTensor r \<Rightarrow> and_then (deref h r) (\<lambda>t. Inr (t, True))
                | PArray a \<Rightarrow> Inr (a, False)
                | _ \<Rightarrow> Inl AttributeError)
           | _ \<Rightarrow> Inl ValueError)
      | PList xs \<Rightarrow> Inr (\<lparr>shape = [length xs], elems = xs\<rparr>, False)
      | PTensor r \<Rightarrow> and_then (deref h r) (\<lambda>t. Inr (t, True))
      | _ \<Rightarrow> Inl NotImplementedError)"

text \<open>The asserted condition: \<open>value.ndim == 1 or (value.ndim == 2 and value.shape[1] == 1)\<close>.\<close>

definition cv_shape_ok :: "'a tensor \<Rightarrow> bool" where
  "cv_shape_ok t =
     (length (shape t) = 1 \<or> (length (shape t) = 2 \<and> shape t ! 1 = 1))"

text \<open>\<open>value.reshape(-1, 1)\<close>: the same elements, as one column.\<close>

definition reshape_column :: "'a tensor \<Rightarrow> 'a tensor" where
  "reshape_column t = \<lparr>shape = [numel (shape t), 1], elems = elems t\<rparr>"

definition cv_step ::
  "string \<Rightarrow> 'a heap \<times> 'a fields \<Rightarrow> error + ('a heap \<times> 'a fields)" where
  "cv_step k st =
     (case st of (h, data) \<Rightarrow>
      (case data k of
         None \<Rightarrow> Inl (KeyError k)
       | Some raw_value \<Rightarrow>
           and_then (cv_value h raw_value) (\<lambda>(v, is_torch).
             if cv_shape_ok v
             then (if is_torch
                   then (case alloc (reshape_column v) h of
                           (r', h') \<Rightarrow> Inr (h', data(k \<mapsto> PTensor r')))
                   else Inr (h, data(k \<mapsto> PArray (reshape_column v))))
             else Inl AssertionError)))"

definition ColumnVector_call ::
  "ColumnVector \<Rightarrow> 'a heap \<Rightarrow> 'a fields \<Rightarrow> error + ('a heap \<times> 'a fields)" where
  "ColumnVector_call self h data = for_each cv_step (cv_keys self) (h, data)"

section \<open>Rename and Filter\<close>

text \<open>
  The transforms above write into the dict they receive and return it; their models pass
  the content of that one dict along. \<open>Rename\<close> and \<open>Filter\<close> build a second dict and
  return it instead. To tell the dict received from the dict returned, the dict objects
  are kept in a store, a list addressed by position; a call takes the address of the dict
  it receives and returns the store after the call, with the address of the dict it
  returns or the exception it raises. Copying a dict copies the references to its values.
\<close>

type_synonym 'a dicts = "'a fields list"

record Rename =
  old_names :: "string list"
  new_names :: "string list"

text \<open>\<open>__init__\<close> stores the two lists; it has no check and cannot raise.\<close>

definition Rename_init :: "string list \<Rightarrow> string list \<Rightarrow> error + Rename" where
  "Rename_init olds news = Inr \<lparr>old_names = olds, new_names = news\<rparr>"

text \<open>
  The loop \<open>for o, n in zip(old_names, new_names): new_data[n] = new_data.pop(o)\<close> on the
  dict at address \<open>a\<close>: \<open>pop\<close> removes the old name, and raises when it is absent, before
  the new name is bound.
\<close>

fun rename_loop ::
  "(string \<times> string) list \<Rightarrow> nat \<Rightarrow> 'a dicts \<Rightarrow> 'a dicts \<times> (error + nat)" where
  "rename_loop [] a ds = (ds, Inr a)"
| "rename_loop ((old, new) # ps) a ds =
     (case (ds ! a) old of
        None \<Rightarrow> (ds, Inl (KeyError old))
      | Some v \<Rightarrow> rename_loop ps a (ds[a := ((ds ! a)(old := None))(new \<mapsto> v)]))"

definition Rename_call :: "Rename \<Rightarrow> 'a dicts \<Rightarrow> nat \<Rightarrow> 'a dicts \<times> (error + nat)" where
  "Rename_call self ds data =
     (if data < length ds
      then (let new_data = length ds
            in rename_loop (zip (old_names self) (new_names self)) new_data (ds @ [ds ! data]))
      else (ds, Inl ReferenceError))"

record Filter =
  keep_keys :: "string list option"
  remove_keys :: "string list option"

definition Filter_init :: "string list option \<Rightarrow> string list option \<Rightarrow> error + Filter" where
  "Filter_init keep remove =
     (if (keep = None) \<noteq> (remove = None)
      then Inr \<lparr>keep_keys = keep, remove_keys = remove\<rparr>
      else Inl AssertionError)"

text \<open>
  \<open>for k in keep_keys: if k in data: new_data[k] = data[k]\<close>, reading the dict at \<open>data\<close>
  and writing the dict at \<open>new_data\<close>.
\<close>

fun keep_loop :: "string list \<Rightarrow> nat \<Rightarrow> nat \<Rightarrow> 'a dicts \<Rightarrow> 'a dicts" where
  "keep_loop [] data new_data ds = ds"
| "keep_loop (k # ks) data new_data ds =
     keep_loop ks data new_data
       (case (ds ! data) k of
          None \<Rightarrow> ds
        | Some v \<Rightarrow> ds[new_data := (ds ! new_data)(k \<mapsto> v)])"

text \<open>\<open>for k in remove_keys: if k in new_data: del new_data[k]\<close>.\<close>

fun remove_loop :: "string list \<Rightarrow> nat \<Rightarrow> 'a dicts \<Rightarrow> 'a dicts" where
  "remove_loop [] new_data ds = ds"
| "remove_loop (k # ks) new_data ds =
     remove_loop ks new_data
       (case (ds ! new_data) k of
          None \<Rightarrow> ds
        | Some v \<Rightarrow> ds[new_data := (ds ! new_data)(k := None)])"

text \<open>
  \<open>__call__\<close> tests \<open>if self.keep_keys\<close>, which an empty keep-list fails like \<open>None\<close>; the
  other branch then iterates over \<open>remove_keys\<close>, and iterating over \<open>None\<close> raises.
\<close>

definition filter_remove :: "Filter \<Rightarrow> 'a dicts \<Rightarrow> nat \<Rightarrow> 'a dicts \<times> (error + nat)" where
  "filter_remove self ds data =
     (let new_data = length ds; ds' = ds @ [ds ! data]
      in (case remove_keys self of
            None \<Rightarrow> (ds', Inl TypeError)
          | Some ks \<Rightarrow> (remove_loop ks new_data ds', Inr new_data)))"

definition Filter_call :: "Filter \<Rightarrow> 'a dicts \<Rightarrow> nat \<Rightarrow> 'a dicts \<times> (error + nat)" where
  "Filter_call self ds data =
     (if data < length ds
      then (case keep_keys self of
              Some (k # ks) \<Rightarrow>
                (let new_data = length ds
                 in (keep_loop (k # ks) data new_data (ds @ [Map.empty]), Inr new_data))
            | _ \<Rightarrow> filter_remove self ds data)
      else (ds, Inl ReferenceError))"

section \<open>DenseNormalization and MapIDListFeatures\<close>

text \<open>
  Both transforms call collaborators whose code is outside the transforms: the
  normalization \<open>Preprocessor\<close> and the sparse preprocessor made by
  \<open>make_sparse_preprocessor\<close>. They are parameters of the model. A collaborator that
  raises returns \<open>None\<close>, which the transform passes on as \<open>CollaboratorError\<close>.
\<close>

datatype device = CPU | CUDA nat

text \<open>
  Modelled from the spec: \<open>NormalizationData\<close> is declared outside the transforms; the
  normalization specification is opaque, and the transform reads its attribute
  \<open>dense_normalization_parameters\<close> only to hand it to the constructor of the
  \<open>Preprocessor\<close>.
\<close>

record 'np NormalizationData =
  dense_normalization_parameters :: 'np

record ('np, 'p) DenseNormalization =
  dn_keys :: "string list"
  dn_normalization_data :: "'np NormalizationData"
  dn_device :: device
  dn_preprocessor :: "'p option"

text \<open>\<open>__init__\<close>: the device defaults to the CPU, and the preprocessor starts as \<open>None\<close>.\<close>

definition DenseNormalization_init ::
  "string list \<Rightarrow> 'np NormalizationData \<Rightarrow> device option \<Rightarrow> error + ('np, 'p) DenseNormalization" where
  "DenseNormalization_init keys normalization_data dev =
     Inr \<lparr>dn_keys = keys, dn_normalization_data = normalization_data,
          dn_device = (case dev of None \<Rightarrow> CPU | Some d \<Rightarrow> d),
          dn_preprocessor = None\<rparr>"

text \<open>
  \<open>t[mask] = 0\<close> for a boolean mask of shape \<open>ms\<close>: the mask must have the leading
  dimensions of \<open>t\<close>, and every row of \<open>t\<close> under a true entry becomes zero.
\<close>

definition masked_zero :: "bool list \<Rightarrow> nat list \<Rightarrow> 'a::zero tensor \<Rightarrow> error + 'a tensor" where
  "masked_zero msk ms t =
     (if length ms \<le> length (shape t) \<and> take (length ms) (shape t) = ms
      then (let n = numel (drop (length ms) (shape t))
            in Inr (t\<lparr>elems := concat (map (\<lambda>i. if msk ! i then replicate n 0
                                                  else take n (drop (i * n) (elems t)))
                                           [0 ..< length msk])\<rparr>))
      else Inl IndexError)"

text \<open>
  The body of the loop for one key. The field must be a pair of two tensors. \<open>Tensor.to\<close>
  returns the tensor itself (all tensors live on the device of the transform), so the two
  assignments \<open>presence[torch.isnan(value)] = 0\<close> and \<open>value[torch.isnan(value)] = 0\<close>
  write into the tensor objects of the field, which any other holder of these
  references sees. The normalized tensor is a new object. A field of another kind is
  outside the documented format \<open>Tuple[Tensor, Tensor]\<close>: a tuple of another length
  cannot be unpacked, a component that is no tensor has no method \<open>to\<close>, and anything
  else is reported as a type error.
\<close>

definition dn_normalize ::
  "('a \<Rightarrow> bool) \<Rightarrow> ('a tensor \<Rightarrow> 'a tensor \<Rightarrow> 'a tensor option) \<Rightarrow> nat \<Rightarrow> nat \<Rightarrow>
   'a::zero heap \<Rightarrow> error + ('a heap \<times> nat)" where
  "dn_normalize isnan preprocessor v p h =
     and_then (deref h v) (\<lambda>val.
     and_then (deref h p) (\<lambda>presence.
     and_then (masked_zero (map isnan (elems val)) (shape val) presence) (\<lambda>presence'.
     and_then (deref (h[p := presence']) v) (\<lambda>val1.
     and_then (masked_zero (map isnan (elems val1)) (shape val1) val1) (\<lambda>val'.
       (case preprocessor ((h[p := presence', v := val']) ! v) ((h[p := presence', v := val']) ! p) of
          None \<Rightarrow> Inl CollaboratorError
        | Some out \<Rightarrow>
            (case alloc out (h[p := presence', v := val']) of (r', h') \<Rightarrow> Inr (h', r'))))))))"

definition dn_step ::
  "('a \<Rightarrow> bool) \<Rightarrow> ('a tensor \<Rightarrow> 'a tensor \<Rightarrow> 'a tensor option) \<Rightarrow> string \<Rightarrow>
   'a::zero heap \<times> 'a fields \<Rightarrow> error + ('a heap \<times> 'a fields)" where
  "dn_step isnan preprocessor k st =
     (case st of (h, data) \<Rightarrow>
      (case data k of
         None \<Rightarrow> Inl (KeyError k)
       | Some (PTuple [PTensor v, PTensor p]) \<Rightarrow>
           (case dn_normalize isnan preprocessor v p h of
              Inl e \<Rightarrow> Inl e
            | Inr (h', r') \<Rightarrow> Inr (h', data(k \<mapsto> PTensor r')))
       | Some (PTuple [x, y]) \<Rightarrow> Inl AttributeError
       | Some (PTuple xs) \<Rightarrow> Inl ValueError
       | Some other \<Rightarrow> Inl TypeError))"

text \<open>
  \<open>__call__\<close>, with the constructor \<open>Preprocessor\<close> of the collaborator and the function
  \<open>run\<close> that applies a constructed preprocessor to a value and its presence. The
  preprocessor is built when the instance has none, before the loop, so the instance is
  returned also when the loop raises.
\<close>

definition DenseNormalization_call ::
  "('a \<Rightarrow> bool) \<Rightarrow> ('np \<Rightarrow> device \<Rightarrow> 'p) \<Rightarrow> ('p \<Rightarrow> 'a tensor \<Rightarrow> 'a tensor \<Rightarrow> 'a tensor option) \<Rightarrow>
   ('np, 'p) DenseNormalization \<Rightarrow> 'a::zero heap \<Rightarrow> 'a fields \<Rightarrow>
   ('np, 'p) DenseNormalization \<times> (error + ('a heap \<times> 'a fields))" where
  "DenseNormalization_call isnan Preprocessor run self h data =
     (let p = (case dn_preprocessor self of
                 None \<Rightarrow> Preprocessor (dense_normalization_parameters (dn_normalization_data self))
                           (dn_device self)
               | Some p \<Rightarrow> p)
      in (self\<lparr>dn_preprocessor := Some p\<rparr>,
          for_each (dn_step isnan (run p)) (dn_keys self) (h, data)))"

text \<open>
  Modelled from the spec: \<open>ModelFeatureConfig\<close> is declared outside the transforms; it
  maps identifier namespaces to names, and \<open>id2name\<close> is its identifier vocabulary, of
  which the transform only tests whether it is empty.
\<close>

record ModelFeatureConfig =
  id2name :: "(int \<times> string) list"

record 'sp MapIDListFeatures =
  id_list_keys :: "string list"
  id_score_list_keys :: "string list"
  feature_config :: ModelFeatureConfig
  sparse_preprocessor :: "'sp option"

text \<open>
  \<open>__init__\<close> asserts that the two key lists share no key and then calls
  \<open>make_sparse_preprocessor(feature_config, device)\<close>, storing what it returns.
\<close>

definition MapIDListFeatures_init ::
  "(ModelFeatureConfig \<Rightarrow> device \<Rightarrow> 'sp option) \<Rightarrow>
   string list \<Rightarrow> string list \<Rightarrow> ModelFeatureConfig \<Rightarrow> device \<Rightarrow> error + 'sp MapIDListFeatures" where
  "MapIDListFeatures_init make_sparse_preprocessor il_keys isl_keys config dev =
     (if set il_keys \<inter> set isl_keys = {}
      then (case make_sparse_preprocessor config dev of
              None \<Rightarrow> Inl CollaboratorError
            | Some sp \<Rightarrow>
                Inr \<lparr>id_list_keys = il_keys, id_score_list_keys = isl_keys,
                     feature_config = config, sparse_preprocessor = Some sp\<rparr>)
      else Inl AssertionError)"

text \<open>
  The body of the loop for one key, with the two entry points of the sparse preprocessor
  as parameters; they take the heap and the dict of the field and return the heap and the
  new value of the field. The attribute \<open>sparse_preprocessor\<close> is an optional value, as
  any Python attribute is; the constructor always stores an object, and a method call on
  \<open>None\<close> would raise.
\<close>

definition mid_step ::
  "('sp \<Rightarrow> 'a heap \<Rightarrow> (int \<times> int list \<times> 'a pyval) list \<Rightarrow> ('a heap \<times> 'a pyval) option) \<Rightarrow>
   ('sp \<Rightarrow> 'a heap \<Rightarrow> (int \<times> int list \<times> 'a pyval) list \<Rightarrow> ('a heap \<times> 'a pyval) option) \<Rightarrow>
   'sp MapIDListFeatures \<Rightarrow> string \<Rightarrow> 'a heap \<times> 'a fields \<Rightarrow> error + ('a heap \<times> 'a fields)" where
  "mid_step preprocess_id_list preprocess_id_score_list self k st =
     (case st of (h, data) \<Rightarrow>
      if id2name (feature_config self) = [] \<or> data k = None
      then Inr (h, data(k \<mapsto> PNone))
      else (case data k of
              Some (PDict m) \<Rightarrow>
                (case sparse_preprocessor self of
                   None \<Rightarrow> Inl AttributeError
                 | Some sp \<Rightarrow>
                     (case (if k \<in> set (id_list_keys self) then preprocess_id_list sp h m
                            else preprocess_id_score_list sp h m) of
                        None \<Rightarrow> Inl CollaboratorError
                      | Some (h', v) \<Rightarrow> Inr (h', data(k \<mapsto> v))))
            | _ \<Rightarrow> Inl AssertionError))"

definition MapIDListFeatures_call ::
  "('sp \<Rightarrow> 'a heap \<Rightarrow> (int \<times> int list \<times> 'a pyval) list \<Rightarrow> ('a heap \<times> 'a pyval) option) \<Rightarrow>
   ('sp \<Rightarrow> 'a heap \<Rightarrow> (int \<times> int list \<times> 'a pyval) list \<Rightarrow> ('a heap \<times> 'a pyval) option) \<Rightarrow>
   'sp MapIDListFeatures \<Rightarrow> 'a heap \<Rightarrow> 'a fields \<Rightarrow> error + ('a heap \<times> 'a fields)" where
  "MapIDListFeatures_call preprocess_id_list preprocess_id_score_list self h data =
     for_each (mid_step preprocess_id_list preprocess_id_score_list self)
       (id_list_keys self @ id_score_list_keys self) (h, data)"

section \<open>Tensor algebra: AppendConstant and Cat\<close>

text \<open>Python list operations with an integer position that may be negative.\<close>

definition py_position :: "nat \<Rightarrow> int \<Rightarrow> nat option" where
  "py_position len i =
     (if 0 \<le> i \<and> i < int len then Some (nat i)
      else if i < 0 \<and> - int len \<le> i then Some (nat (int len + i))
      else None)"

definition py_index :: "'x list \<Rightarrow> int \<Rightarrow> error + 'x" where
  "py_index xs i =
     (case py_position (length xs) i of
        None \<Rightarrow> Inl IndexError
      | Some j \<Rightarrow> Inr (xs ! j))"

definition py_pop :: "'x list \<Rightarrow> int \<Rightarrow> error + 'x list" where
  "py_pop xs i =
     (case py_position (length xs) i of
        None \<Rightarrow> Inl IndexError
      | Some j \<Rightarrow> Inr (take j xs @ drop (Suc j) xs))"

text \<open>\<open>list.insert\<close> never raises: a position beyond either end is clamped.\<close>

definition py_insert :: "'x list \<Rightarrow> int \<Rightarrow> 'x \<Rightarrow> 'x list" where
  "py_insert xs i x =
     (let n = int (length xs); j = nat (if i < 0 then max 0 (n + i) else min i n)
      in take j xs @ [x] @ drop j xs)"

text \<open>A list comprehension whose element expression may raise.\<close>

fun map_err :: "('x \<Rightarrow> error + 'y) \<Rightarrow> 'x list \<Rightarrow> error + 'y list" where
  "map_err f [] = Inr []"
| "map_err f (x # xs) =
     (case f x of
        Inl e \<Rightarrow> Inl e
      | Inr y \<Rightarrow> (case map_err f xs of Inl e \<Rightarrow> Inl e | Inr ys \<Rightarrow> Inr (y # ys)))"

text \<open>
  \<open>torch.broadcast_shapes\<close>: the result starts as ones, as long as the longest shape;
  every shape is then merged into it from the last dimension backwards, where a size
  must be 1, or equal to the size reached so far, or meet a size of 1. The two lists of
  \<open>broadcast_into\<close> are reversed shapes.
\<close>

fun broadcast_into :: "nat list \<Rightarrow> nat list \<Rightarrow> error + nat list" where
  "broadcast_into res [] = Inr res"
| "broadcast_into [] (x # xs) = Inl IndexError"
| "broadcast_into (r # res) (x # xs) =
     (if x = 1 \<or> x = r
      then (case broadcast_into res xs of Inl e \<Rightarrow> Inl e | Inr res' \<Rightarrow> Inr (r # res'))
      else if r \<noteq> 1 then Inl RuntimeError
      else (case broadcast_into res xs of Inl e \<Rightarrow> Inl e | Inr res' \<Rightarrow> Inr (x # res')))"

definition broadcast_shapes :: "nat list list \<Rightarrow> error + nat list" where
  "broadcast_shapes shapes =
     (case for_each (\<lambda>s res. broadcast_into res (rev s)) shapes
             (replicate (fold (\<lambda>s m. max m (length s)) shapes 0) 1) of
        Inl e \<Rightarrow> Inl e
      | Inr res \<Rightarrow> Inr (rev res))"

text \<open>
  \<open>t.expand(sizes)\<close>: the shape of \<open>t\<close> is aligned with \<open>sizes\<close> at the last dimension
  and filled with ones in front; a dimension keeps its size or grows from 1, in which
  case its content is repeated. \<open>expand_elems\<close> takes the filled shape, the sizes and
  the elements.
\<close>

fun expand_elems :: "nat list \<Rightarrow> nat list \<Rightarrow> 'a list \<Rightarrow> 'a list" where
  "expand_elems (a # ss) (b # ts) xs =
     (if a = b
      then concat (map (\<lambda>i. expand_elems ss ts (take (numel ss) (drop (i * numel ss) xs)))
                       [0 ..< a])
      else concat (replicate b (expand_elems ss ts xs)))"
| "expand_elems ss ts xs = xs"

definition expand :: "'a tensor \<Rightarrow> nat list \<Rightarrow> error + 'a tensor" where
  "expand t sizes =
     (if length sizes < length (shape t) then Inl RuntimeError
      else (let filled = replicate (length sizes - length (shape t)) 1 @ shape t
            in if \<exists>(a, b) \<in> set (zip filled sizes). a \<noteq> b \<and> a \<noteq> 1 then Inl RuntimeError
               else Inr \<lparr>shape = sizes, elems = expand_elems filled sizes (elems t)\<rparr>))"

text \<open>
  \<open>torch.cat(tensors, dim)\<close>. The list must not be empty. One-dimensional empty tensors
  are skipped. The others must have the same, positive, number of dimensions, \<open>dim\<close> must
  be one of them (counted from the end when negative), and their shapes must agree
  outside \<open>dim\<close>. The result takes, for every index in front of \<open>dim\<close>, the block of each
  tensor in turn.
\<close>

definition cat :: "'a tensor list \<Rightarrow> int \<Rightarrow> error + 'a tensor" where
  "cat tensors dim =
     (if tensors = [] then Inl RuntimeError
      else (case filter (\<lambda>t. shape t \<noteq> [0]) tensors of
              [] \<Rightarrow> Inr \<lparr>shape = [0], elems = []\<rparr>
            | t0 # rest \<Rightarrow>
                (let ts = t0 # rest; n = length (shape t0)
                 in if n = 0 \<or> (\<exists>t \<in> set ts. length (shape t) \<noteq> n) then Inl RuntimeError
                    else if dim < - int n \<or> int n \<le> dim then Inl IndexError
                    else (let d = nat (if dim < 0 then dim + int n else dim)
                          in if \<exists>t \<in> set ts. take d (shape t) \<noteq> take d (shape t0) \<or>
                                   drop (Suc d) (shape t) \<noteq> drop (Suc d) (shape t0)
                             then Inl RuntimeError
                             else Inr \<lparr>shape = (shape t0)[d := sum_list (map (\<lambda>t. shape t ! d) ts)],
                                       elems = concat (map (\<lambda>i. concat (map (\<lambda>t.
                                                   take (numel (drop d (shape t)))
                                                     (drop (i * numel (drop d (shape t))) (elems t))) ts))
                                                 [0 ..< numel (take d (shape t0))])\<rparr>))))"

text \<open>The tensors of a list of fields; a field that holds no tensor is a type error.\<close>

definition get_tensor :: "'a heap \<Rightarrow> 'a fields \<Rightarrow> string \<Rightarrow> error + 'a tensor" where
  "get_tensor h data k =
     (case data k of
        None \<Rightarrow> Inl (KeyError k)
      | Some (PTensor r) \<Rightarrow> deref h r
      | Some _ \<Rightarrow> Inl TypeError)"

record 'a AppendConstant =
  ac_keys :: "string list"
  ac_dim :: int
  ac_const :: 'a

definition AppendConstant_init :: "string list \<Rightarrow> int \<Rightarrow> 'a \<Rightarrow> 'a AppendConstant" where
  "AppendConstant_init keys dim const = \<lparr>ac_keys = keys, ac_dim = dim, ac_const = const\<rparr>"

text \<open>\<open>self.const * torch.ones(value.shape[:-1]).unsqueeze(-1)\<close>.\<close>

definition extra_col :: "'a::monoid_mult \<Rightarrow> 'a tensor \<Rightarrow> 'a tensor" where
  "extra_col c v =
     \<lparr>shape = butlast (shape v) @ [1],
      elems = map (\<lambda>x. c * x) (replicate (numel (butlast (shape v))) 1)\<rparr>"

definition ac_step ::
  "'a::monoid_mult AppendConstant \<Rightarrow> string \<Rightarrow> 'a heap \<times> 'a fields \<Rightarrow> error + ('a heap \<times> 'a fields)" where
  "ac_step self k st =
     (case st of (h, data) \<Rightarrow>
      and_then (get_tensor h data k) (\<lambda>v.
      and_then (cat [extra_col (ac_const self) v, v] (ac_dim self)) (\<lambda>res.
        (case alloc res h of (r', h') \<Rightarrow> Inr (h', data(k \<mapsto> PTensor r'))))))"

definition AppendConstant_call ::
  "'a::monoid_mult AppendConstant \<Rightarrow> 'a heap \<Rightarrow> 'a fields \<Rightarrow> error + ('a heap \<times> 'a fields)" where
  "AppendConstant_call self h data = for_each (ac_step self) (ac_keys self) (h, data)"

text \<open>
  \<open>_broadcast_tensors_for_cat\<close>: the position of the concatenation dimension in each
  tensor, the shapes without it, their broadcast, the broadcast with each tensor's own
  size put back at its position, and the tensors expanded to these shapes.
\<close>

definition broadcast_tensors_for_cat :: "'a tensor list \<Rightarrow> int \<Rightarrow> error + 'a tensor list" where
  "broadcast_tensors_for_cat tensors dim =
     (let dims = (if 0 \<le> dim then replicate (length tensors) dim
                  else map (\<lambda>t. int (length (shape t)) + dim) tensors)
      in and_then (map_err (\<lambda>(t, d). py_pop (shape t) d) (zip tensors dims)) (\<lambda>shapes_except_cat_dim.
         and_then (broadcast_shapes shapes_except_cat_dim) (\<lambda>broadcast_shape.
         and_then (map_err (\<lambda>(t, d). and_then (py_index (shape t) dim)
                                        (\<lambda>c. Inr (py_insert broadcast_shape d c)))
                     (zip tensors dims)) (\<lambda>final_shapes.
           map_err (\<lambda>(t, s). expand t s) (zip tensors final_shapes)))))"

record Cat =
  cat_input_keys :: "string list"
  cat_output_key :: string
  cat_dim :: int
  cat_broadcast :: bool

definition Cat_init :: "string list \<Rightarrow> string \<Rightarrow> int \<Rightarrow> bool \<Rightarrow> Cat" where
  "Cat_init input_keys output_key dim broadcast =
     \<lparr>cat_input_keys = input_keys, cat_output_key = output_key, cat_dim = dim,
      cat_broadcast = broadcast\<rparr>"

definition Cat_call :: "Cat \<Rightarrow> 'a heap \<Rightarrow> 'a fields \<Rightarrow> error + ('a heap \<times> 'a fields)" where
  "Cat_call self h data =
     and_then (map_err (get_tensor h data) (cat_input_keys self)) (\<lambda>tensors.
     and_then (if cat_broadcast self then broadcast_tensors_for_cat tensors (cat_dim self)
               else Inr tensors) (\<lambda>tensors'.
     and_then (cat tensors' (cat_dim self)) (\<lambda>res.
       (case alloc res h of (r', h') \<Rightarrow> Inr (h', data(cat_output_key self \<mapsto> PTensor r'))))))"

section \<open>SlateView and FixedLengthSequenceDenseNormalization\<close>












section \<open>Verified properties\<close>

subsection \<open>FixedLengthSequences caches the inferred stride\<close>

lemma fls_step_cached:
  assumes "fls_step kt (self, h, d) = Inr (self', h', d')"
    and "fls_expected_length self = Some l"
  shows "self' = self"
  using assms
  by (auto simp: fls_step_def fls_expected_def split: option.splits pyval.splits sum.splits if_splits)

lemma fls_loop_cached:
  assumes "for_each fls_step kts (self, h, d) = Inr (self', h', d')"
    and "fls_expected_length self = Some l"
  shows "self' = self"
  using assms
proof (induction kts arbitrary: self h d)
  case Nil
  then show ?case by simp
next
  case (Cons kt kts)
  from Cons.prems(1) obtain s1 h1 d1 where
    step: "fls_step kt (self, h, d) = Inr (s1, h1, d1)" and
    rest: "for_each fls_step kts (s1, h1, d1) = Inr (self', h', d')"
    by (auto split: sum.splits)
  from fls_step_cached [OF step Cons.prems(2)] have "s1 = self" .
  with Cons.IH [OF rest] Cons.prems(2) show ?case by simp
qed

lemma arange_0_12_4: "arange 0 (int (length [0, 4, 8 :: int]) * 4) 4 = Inr [0, 4, 8]"
  by (simp add: arange_def upt_conv_Cons)

lemma fls_step_infer_4:
  assumes "fls_step kt (self, h, d) = Inr (self', h', d')"
    and "fls_expected_length self = None"
    and "d (fst kt) = Some (PDict m)"
    and "map_of m (fls_sequence_id self) = Some ([0, 4, 8], v)"
  shows "fls_expected_length self' = Some 4"
  using assms
  by (auto simp: fls_step_def fls_expected_def split: sum.splits if_splits)

lemma fls_step_misaligned:
  assumes "fls_expected_length self = Some 4"
    and "d (fst kt) = Some (PDict m)"
    and "map_of m (fls_sequence_id self) = Some ([0, 5, 10], v)"
  shows "fls_step kt (self, h, d) = Inl AssertionError"
  using assms
  by (simp add: fls_step_def fls_expected_def arange_def upt_conv_Cons)

text \<open>
  C1. An instance is constructed with \<open>expected_length = None\<close>. When a first call, in
  which the offsets of the first configured key under the configured sequence id are
  \<open>[0, 4, 8]\<close>, returns, the instance holds the stride 4; and every later call on that
  instance in which these offsets are \<open>[0, 5, 10]\<close> raises the assertion error: the call
  checks the offsets against the cached stride and does not infer 5.
\<close>

theorem fls_cached_stride_rejects_other_stride:
  assumes init: "FixedLengthSequences_init (k # ks) sid None tks = Inr self"
    and first: "FixedLengthSequences_call self h d = Inr (self', h', d')"
    and d: "d k = Some (PDict m)" "map_of m sid = Some ([0, 4, 8], v)"
    and d2: "d2 k = Some (PDict m2)" "map_of m2 sid = Some ([0, 5, 10], v2)"
  shows "fls_expected_length self' = Some 4
       \<and> FixedLengthSequences_call self' h2 d2 = Inl AssertionError"
proof -
  from init obtain tk tks' where
    self: "fls_keys self = k # ks" "fls_to_keys self = tk # tks'"
      "fls_sequence_id self = sid" "fls_expected_length self = None"
    by (cases "case tks of None \<Rightarrow> k # ks | Some l \<Rightarrow> if l = [] then k # ks else l")
       (auto simp: FixedLengthSequences_init_def Let_def split: if_splits)
  from first self obtain s1 h1 d1 where
    step: "fls_step (k, tk) (self, h, d) = Inr (s1, h1, d1)" and
    rest: "for_each fls_step (zip ks tks') (s1, h1, d1) = Inr (self', h', d')"
    by (auto simp: FixedLengthSequences_call_def split: sum.splits)
  have s1: "fls_expected_length s1 = Some 4"
    using fls_step_infer_4 [OF step] self d by simp
  have same: "self' = s1"
    using fls_loop_cached [OF rest s1] .
  have keys: "fls_keys s1 = k # ks" "fls_to_keys s1 = tk # tks'" "fls_sequence_id s1 = sid"
    using step self
    by (auto simp: fls_step_def fls_expected_def split: option.splits pyval.splits sum.splits if_splits)
  have "fls_step (k, tk) (s1, h2, d2) = Inl AssertionError"
    using fls_step_misaligned [of s1 d2 "(k, tk)" m2 v2 h2] s1 keys d2 by simp
  then have "FixedLengthSequences_call s1 h2 d2 = Inl AssertionError"
    using keys by (simp add: FixedLengthSequences_call_def)
  with s1 same show ?thesis by simp
qed

theorem fls_cached_stride_witness:
  "FixedLengthSequences_init [''seq''] 7 None None
     = Inr \<lparr>fls_keys = [''seq''], fls_sequence_id = 7, fls_to_keys = [''seq''],
             fls_expected_length = None\<rparr>
   \<and> FixedLengthSequences_call
        \<lparr>fls_keys = [''seq''], fls_sequence_id = 7, fls_to_keys = [''seq''],
         fls_expected_length = None\<rparr>
        ([] :: int heap) [''seq'' \<mapsto> PDict [(7, [0, 4, 8], PTuple [])]]
     = Inr (\<lparr>fls_keys = [''seq''], fls_sequence_id = 7, fls_to_keys = [''seq''],
              fls_expected_length = Some 4\<rparr>, [], [''seq'' \<mapsto> PTuple []])
   \<and> FixedLengthSequences_call
        \<lparr>fls_keys = [''seq''], fls_sequence_id = 7, fls_to_keys = [''seq''],
         fls_expected_length = Some 4\<rparr>
        ([] :: int heap) [''seq'' \<mapsto> PDict [(7, [0, 5, 10], PTuple [])]]
     = Inl AssertionError"
proof -
  let ?self = "\<lparr>fls_keys = [''seq''], fls_sequence_id = 7, fls_to_keys = [''seq''],
                fls_expected_length = None\<rparr>"
  let ?self' = "\<lparr>fls_keys = [''seq''], fls_sequence_id = 7, fls_to_keys = [''seq''],
                 fls_expected_length = Some 4\<rparr>"
  let ?d = "[''seq'' \<mapsto> PDict [(7, [0, 4, 8], PTuple [])]] :: int fields"
  let ?d2 = "[''seq'' \<mapsto> PDict [(7, [0, 5, 10], PTuple [])]] :: int fields"
  have init: "FixedLengthSequences_init [''seq''] 7 None None = Inr ?self"
    by (simp add: FixedLengthSequences_init_def Let_def)
  have first: "FixedLengthSequences_call ?self ([] :: int heap) ?d
                 = Inr (?self', [], [''seq'' \<mapsto> PTuple []])"
    by (simp add: FixedLengthSequences_call_def fls_step_def fls_expected_def arange_def
          upt_conv_Cons)
  have d: "?d ''seq'' = Some (PDict [(7, [0, 4, 8], PTuple [])])"
    "map_of [(7 :: int, [0, 4, 8 :: int], PTuple [] :: int pyval)] 7 = Some ([0, 4, 8], PTuple [])"
    by simp_all
  have d2: "?d2 ''seq'' = Some (PDict [(7, [0, 5, 10], PTuple [])])"
    "map_of [(7 :: int, [0, 5, 10 :: int], PTuple [] :: int pyval)] 7 = Some ([0, 5, 10], PTuple [])"
    by simp_all
  from fls_cached_stride_rejects_other_stride
         [where k = "''seq''" and d = "?d" and ?d2.0 = "?d2" and ?h2.0 = "[]",
          OF init first d d2]
       init first
  show ?thesis by simp
qed

subsection \<open>Loops over the configured keys\<close>

lemma field_tensor_alloc_same:
  "field_tensor (h @ [t]) (d(k \<mapsto> PTensor (length h))) k = Some t"
  by (simp add: field_tensor_def)

lemma field_tensor_alloc_other:
  assumes "k' \<noteq> k" and "field_tensor h d k' = Some t'"
  shows "field_tensor (h @ [t]) (d(k \<mapsto> v)) k' = Some t'"
  using assms
  by (auto simp: field_tensor_def nth_append split: option.splits pyval.splits if_splits)

text \<open>
  A loop whose body replaces the tensor of its key by a function of it, and leaves the
  tensors of the other keys alone, does so for every key of a list without repetitions.
\<close>

lemma for_each_field_tensor:
  fixes body :: "string \<Rightarrow> 'a heap \<times> 'a fields \<Rightarrow> error + ('a heap \<times> 'a fields)"
  assumes step: "\<And>k h d t. field_tensor h d k = Some t \<Longrightarrow> P t \<Longrightarrow>
      \<exists>h' d'. body k (h, d) = Inr (h', d') \<and> field_tensor h' d' k = Some (f t) \<and>
        (\<forall>k' t'. k' \<noteq> k \<longrightarrow> field_tensor h d k' = Some t' \<longrightarrow> field_tensor h' d' k' = Some t')"
    and "distinct ks"
    and "\<forall>k \<in> set ks. \<exists>t. field_tensor h d k = Some t \<and> P t"
  shows "\<exists>h' d'. for_each body ks (h, d) = Inr (h', d') \<and>
      (\<forall>k \<in> set ks. \<forall>t. field_tensor h d k = Some t \<longrightarrow> field_tensor h' d' k = Some (f t)) \<and>
      (\<forall>k t. k \<notin> set ks \<longrightarrow> field_tensor h d k = Some t \<longrightarrow> field_tensor h' d' k = Some t)"
  using assms(2,3)
proof (induction ks arbitrary: h d)
  case Nil
  then show ?case by simp
next
  case (Cons k ks)
  from Cons.prems obtain t where t: "field_tensor h d k = Some t" "P t"
    by auto
  from step [OF t] obtain h1 d1 where
    b: "body k (h, d) = Inr (h1, d1)" and
    k1: "field_tensor h1 d1 k = Some (f t)" and
    frame: "\<And>k' t'. k' \<noteq> k \<Longrightarrow> field_tensor h d k' = Some t' \<Longrightarrow> field_tensor h1 d1 k' = Some t'"
    by blast
  have notin: "k \<notin> set ks" and dist: "distinct ks"
    using Cons.prems(1) by simp_all
  have pre: "\<forall>k' \<in> set ks. \<exists>t. field_tensor h1 d1 k' = Some t \<and> P t"
  proof
    fix k' assume k': "k' \<in> set ks"
    with Cons.prems(2) obtain t' where "field_tensor h d k' = Some t'" "P t'"
      by auto
    moreover from k' notin have "k' \<noteq> k" by auto
    ultimately show "\<exists>t. field_tensor h1 d1 k' = Some t \<and> P t"
      using frame by blast
  qed
  from Cons.IH [OF dist pre] obtain h' d' where
    loop: "for_each body ks (h1, d1) = Inr (h', d')" and
    fin: "\<And>k' t'. k' \<in> set ks \<Longrightarrow> field_tensor h1 d1 k' = Some t' \<Longrightarrow>
             field_tensor h' d' k' = Some (f t')" and
    rest: "\<And>k' t'. k' \<notin> set ks \<Longrightarrow> field_tensor h1 d1 k' = Some t' \<Longrightarrow>
             field_tensor h' d' k' = Some t'"
    by blast
  have "for_each body (k # ks) (h, d) = Inr (h', d')"
    using b loop by simp
  moreover have "\<forall>k' \<in> set (k # ks). \<forall>t'. field_tensor h d k' = Some t' \<longrightarrow>
      field_tensor h' d' k' = Some (f t')"
  proof (intro ballI allI impI)
    fix k' t' assume k': "k' \<in> set (k # ks)" and ft: "field_tensor h d k' = Some t'"
    show "field_tensor h' d' k' = Some (f t')"
    proof (cases "k' = k")
      case True
      with ft t have "t' = t" by simp
      with True rest [OF notin k1] show ?thesis by simp
    next
      case False
      with k' have "k' \<in> set ks" by simp
      with fin frame [OF False ft] show ?thesis by blast
    qed
  qed
  moreover have "\<forall>k' t'. k' \<notin> set (k # ks) \<longrightarrow> field_tensor h d k' = Some t' \<longrightarrow>
      field_tensor h' d' k' = Some t'"
    using frame rest by auto
  ultimately show ?case by blast
qed

subsection \<open>OneHotActions\<close>

lemma take_drop_concat_uniform:
  assumes "\<forall>x \<in> set xs. length (f x) = n" and "i < length xs"
  shows "take n (drop (i * n) (concat (map f xs))) = f (xs ! i)"
  using assms
proof (induction xs arbitrary: i)
  case Nil
  then show ?case by simp
next
  case (Cons x xs)
  show ?case
  proof (cases i)
    case 0
    with Cons.prems show ?thesis by simp
  next
    case (Suc j)
    with Cons.prems have "take n (drop (j * n) (concat (map f xs))) = f (xs ! j)"
      using Cons.IH [of j] by simp
    with Suc Cons.prems show ?thesis by simp
  qed
qed

lemma rows_concat_uniform:
  assumes "\<forall>x \<in> set xs. length (f x) = n"
  shows "map (\<lambda>i. take n (drop (i * n) (concat (map f xs)))) [0 ..< length xs] = map f xs"
proof (rule nth_equalityI)
  show "length (map (\<lambda>i. take n (drop (i * n) (concat (map f xs)))) [0 ..< length xs])
      = length (map f xs)"
    by simp
next
  fix i assume "i < length (map (\<lambda>i. take n (drop (i * n) (concat (map f xs)))) [0 ..< length xs])"
  then have i: "i < length xs" by simp
  from take_drop_concat_uniform [OF assms i] i
  show "map (\<lambda>i. take n (drop (i * n) (concat (map f xs)))) [0 ..< length xs] ! i = map f xs ! i"
    by simp
qed

lemma one_hot_row_select:
  assumes "0 \<le> x" and "x \<le> n"
  shows "map (\<lambda>j. map (\<lambda>j. if int j = x then 1 else 0) [0 ..< nat (n + 1)] ! nat j)
             (map (\<lambda>i. 0 + int i * 1) [0 ..< nat n])
       = (if x = n then replicate (nat n) (0 :: int) else (replicate (nat n) 0)[nat x := 1])"
  using assms by (auto simp: list_eq_iff_nth_eq nth_list_update)

text \<open>The two torch calls of the transform, on a tensor whose elements lie in \<open>[0, n]\<close>.\<close>

lemma one_hot_index_select:
  assumes n: "0 \<le> n" and wf: "wf_tensor t" and rng: "\<forall>x \<in> set (elems t). 0 \<le> x \<and> x \<le> n"
  shows "and_then (one_hot t (n + 1)) (\<lambda>hot.
           and_then (arange 0 n 1) (\<lambda>index. index_select_last hot index))
       = Inr \<lparr>shape = shape t @ [nat n],
              elems = concat (map (\<lambda>x. if x = n then replicate (nat n) 0
                                         else (replicate (nat n) 0)[nat x := 1]) (elems t))\<rparr>"
proof -
  let ?row = "\<lambda>x :: int. map (\<lambda>j. if int j = x then 1 else (0 :: int)) [0 ..< nat (n + 1)]"
  let ?hot = "\<lparr>shape = shape t @ [nat (n + 1)], elems = concat (map ?row (elems t))\<rparr>"
  let ?index = "map (\<lambda>i. 0 + int i * 1) [0 ..< nat n]"
  have hot: "one_hot t (n + 1) = Inr ?hot"
  proof (cases "elems t = []")
    case True
    with n show ?thesis by (simp add: one_hot_def)
  next
    case False
    have "\<not> (\<exists>x \<in> set (elems t). x < 0)" "\<not> (\<exists>x \<in> set (elems t). n + 1 \<le> x)"
      using rng by auto
    moreover have "n + 1 \<noteq> - 1" using n by simp
    ultimately show ?thesis using False by (simp add: one_hot_def Let_def)
  qed
  have idx: "arange 0 n 1 = Inr ?index"
    using n by (simp add: arange_def)
  have rows: "map (\<lambda>i. take (nat (n + 1)) (drop (i * nat (n + 1)) (concat (map ?row (elems t)))))
                [0 ..< numel (shape t)] = map ?row (elems t)"
    using rows_concat_uniform [of "elems t" ?row "nat (n + 1)"] wf
    by (simp add: wf_tensor_def)
  have inrange: "\<not> (\<exists>j \<in> set ?index. j < 0 \<or> int (nat (n + 1)) \<le> j)"
    using n by auto
  have sel: "index_select_last ?hot ?index
      = Inr \<lparr>shape = shape t @ [length ?index],
             elems = concat (map (\<lambda>row. map (\<lambda>j. row ! nat j) ?index) (map ?row (elems t)))\<rparr>"
  proof -
    have "shape ?hot \<noteq> []" by simp
    then obtain a s where as: "shape ?hot = a # s" by (cases "shape ?hot") auto
    have l: "last (shape ?hot) = nat (n + 1)" "butlast (shape ?hot) = shape t"
      by simp_all
    show ?thesis
      unfolding index_select_last_def as list.case Let_def
      unfolding as [symmetric] l
      using inrange rows by simp
  qed
  have "concat (map (\<lambda>row. map (\<lambda>j. row ! nat j) ?index) (map ?row (elems t)))
      = concat (map (\<lambda>x. if x = n then replicate (nat n) 0
                           else (replicate (nat n) 0)[nat x := 1]) (elems t))"
  proof -
    have rowsel: "\<And>x. x \<in> set (elems t) \<Longrightarrow> map (\<lambda>j. ?row x ! nat j) ?index
        = (if x = n then replicate (nat n) 0 else (replicate (nat n) 0)[nat x := 1])"
      by (rule one_hot_row_select) (use rng in auto)
    have "map (\<lambda>x. map (\<lambda>j. ?row x ! nat j) ?index) (elems t)
        = map (\<lambda>x. if x = n then replicate (nat n) 0
                    else (replicate (nat n) 0)[nat x := 1]) (elems t)"
      by (rule map_cong [OF refl]) (rule rowsel)
    then have "map (\<lambda>row. map (\<lambda>j. row ! nat j) ?index) (map ?row (elems t))
        = map (\<lambda>x. if x = n then replicate (nat n) 0
                    else (replicate (nat n) 0)[nat x := 1]) (elems t)"
      by (simp only: map_map comp_def)
    then show ?thesis by (simp only:)
  qed
  with hot idx sel show ?thesis by (simp add: and_then_def)
qed

lemma oha_step_effect:
  assumes ft: "field_tensor h d k = Some t"
    and ok: "wf_tensor t \<and> (\<forall>x \<in> set (elems t). 0 \<le> x \<and> x \<le> oha_num_actions self)"
    and n: "0 \<le> oha_num_actions self"
  shows "\<exists>h' d'. oha_step self k (h, d) = Inr (h', d') \<and>
      field_tensor h' d' k
        = Some \<lparr>shape = shape t @ [nat (oha_num_actions self)],
                elems = concat (map (\<lambda>x. if x = oha_num_actions self
                                           then replicate (nat (oha_num_actions self)) 0
                                           else (replicate (nat (oha_num_actions self)) 0)[nat x := 1])
                                    (elems t))\<rparr> \<and>
      (\<forall>k' t'. k' \<noteq> k \<longrightarrow> field_tensor h d k' = Some t' \<longrightarrow> field_tensor h' d' k' = Some t')"
proof -
  let ?res = "\<lparr>shape = shape t @ [nat (oha_num_actions self)],
               elems = concat (map (\<lambda>x. if x = oha_num_actions self
                                          then replicate (nat (oha_num_actions self)) 0
                                          else (replicate (nat (oha_num_actions self)) 0)[nat x := 1])
                                   (elems t))\<rparr>"
  from ft obtain r where r: "d k = Some (PTensor r)" "r < length h" "h ! r = t"
    by (auto simp: field_tensor_def split: option.splits pyval.splits if_splits)
  have calc: "and_then (one_hot t (oha_num_actions self + 1)) (\<lambda>hot.
                and_then (arange 0 (oha_num_actions self) 1) (\<lambda>index. index_select_last hot index))
              = Inr ?res"
    using one_hot_index_select [OF n] ok by blast
  have "oha_step self k (h, d) = Inr (h @ [?res], d(k \<mapsto> PTensor (length h)))"
  proof -
    have "oha_step self k (h, d)
        = and_then (and_then (one_hot t (oha_num_actions self + 1)) (\<lambda>hot.
                      and_then (arange 0 (oha_num_actions self) 1) (\<lambda>index. index_select_last hot index)))
            (\<lambda>res. Inr (h @ [res], d(k \<mapsto> PTensor (length h))))"
      using r by (simp add: oha_step_def deref_def alloc_def and_then_def split: sum.splits)
    then show ?thesis by (simp only: calc) (simp add: and_then_def)
  qed
  then show ?thesis
    using field_tensor_alloc_same [of h ?res d k] field_tensor_alloc_other [of _ k h d]
    by blast
qed

text \<open>
  C2. The keys are configured without repetition and every configured field is a tensor of
  action indices in \<open>[0, num_actions]\<close>. Then the call returns, and every configured field
  is afterwards a tensor with one more dimension, of size \<open>num_actions\<close>, in which each
  index \<open>i < num_actions\<close> has become the vector with a 1 at position \<open>i\<close> and zeros
  elsewhere, and the index \<open>num_actions\<close> the all-zero vector.
\<close>

theorem one_hot_actions_encodes_every_key:
  assumes "0 \<le> oha_num_actions self"
    and "distinct (oha_keys self)"
    and "\<forall>k \<in> set (oha_keys self). \<exists>t. field_tensor h data k = Some t \<and>
           (wf_tensor t \<and> (\<forall>i \<in> set (elems t). 0 \<le> i \<and> i \<le> oha_num_actions self))"
  shows "\<exists>h' data'. OneHotActions_call self h data = Inr (h', data') \<and>
      (\<forall>k \<in> set (oha_keys self). \<forall>t. field_tensor h data k = Some t \<longrightarrow>
         field_tensor h' data' k
           = Some \<lparr>shape = shape t @ [nat (oha_num_actions self)],
                   elems = concat (map (\<lambda>i. if i = oha_num_actions self
                                              then replicate (nat (oha_num_actions self)) 0
                                              else (replicate (nat (oha_num_actions self)) 0)[nat i := 1])
                                       (elems t))\<rparr>)"
proof -
  let ?P = "\<lambda>t. wf_tensor t \<and> (\<forall>i \<in> set (elems t). 0 \<le> i \<and> i \<le> oha_num_actions self)"
  let ?f = "\<lambda>t. \<lparr>shape = shape t @ [nat (oha_num_actions self)],
                  elems = concat (map (\<lambda>i. if i = oha_num_actions self
                                             then replicate (nat (oha_num_actions self)) 0
                                             else (replicate (nat (oha_num_actions self)) 0)[nat i := 1])
                                      (elems t))\<rparr>"
  have step: "\<exists>h' d'. oha_step self k (h, d) = Inr (h', d') \<and> field_tensor h' d' k = Some (?f t) \<and>
        (\<forall>k' t'. k' \<noteq> k \<longrightarrow> field_tensor h d k' = Some t' \<longrightarrow> field_tensor h' d' k' = Some t')"
    if "field_tensor h d k = Some t" "?P t" for k h d t
    using oha_step_effect [OF that assms(1)] .
  from for_each_field_tensor [where body = "oha_step self" and P = ?P and f = ?f, OF step assms(2,3)]
  show ?thesis
    unfolding OneHotActions_call_def by blast
qed

theorem one_hot_actions_witness:
  "\<exists>h' data'.
     OneHotActions_call \<lparr>oha_keys = [''action''], oha_num_actions = 3\<rparr>
       [\<lparr>shape = [2], elems = [1, 3]\<rparr>] [''action'' \<mapsto> PTensor 0] = Inr (h', data') \<and>
     field_tensor h' data' ''action'' = Some \<lparr>shape = [2, 3], elems = [0, 1, 0, 0, 0, 0]\<rparr>"
proof -
  let ?self = "\<lparr>oha_keys = [''action''], oha_num_actions = 3\<rparr>"
  let ?t = "\<lparr>shape = [2], elems = [1, 3 :: int]\<rparr>"
  let ?d = "[''action'' \<mapsto> PTensor 0] :: int fields"
  have ft: "field_tensor [?t] ?d ''action'' = Some ?t"
    by (simp add: field_tensor_def)
  have pre: "\<forall>k \<in> set (oha_keys ?self). \<exists>t. field_tensor [?t] ?d k = Some t \<and>
           (wf_tensor t \<and> (\<forall>i \<in> set (elems t). 0 \<le> i \<and> i \<le> oha_num_actions ?self))"
    by (simp add: field_tensor_def wf_tensor_def numel_def)
  from one_hot_actions_encodes_every_key [of ?self "[?t]" ?d, OF _ _ pre] ft
  show ?thesis
    by (auto simp: numeral_3_eq_3)
qed

subsection \<open>ColumnVector\<close>

lemma cv_value_tensor:
  assumes "field_tensor h d k = Some t"
  shows "\<exists>raw. d k = Some raw \<and> cv_value h raw = Inr (t, True)"
  using assms
  by (auto simp: field_tensor_def cv_value_def deref_def and_then_def
           split: option.splits pyval.splits if_splits)

lemma reshape_column_idem [simp]: "reshape_column (reshape_column t) = reshape_column t"
  by (simp add: reshape_column_def numel_def)

lemma cv_shape_ok_column [simp]: "cv_shape_ok (reshape_column t)"
  by (simp add: reshape_column_def cv_shape_ok_def)

lemma reshape_column_of_column:
  "shape t = [n, 1] \<Longrightarrow> reshape_column t = t"
  by (simp add: reshape_column_def numel_def)

lemma cv_step_tensor_ok:
  assumes "field_tensor h d k = Some t" and "cv_shape_ok t"
  shows "cv_step k (h, d) = Inr (h @ [reshape_column t], d(k \<mapsto> PTensor (length h)))"
  using cv_value_tensor [OF assms(1)] assms(2)
  by (auto simp: cv_step_def and_then_def alloc_def)

lemma cv_step_tensor_bad:
  assumes "field_tensor h d k = Some t" and "\<not> cv_shape_ok t"
  shows "cv_step k (h, d) = Inl AssertionError"
  using cv_value_tensor [OF assms(1)] assms(2)
  by (auto simp: cv_step_def and_then_def)

lemma cv_loop_ok:
  assumes "\<forall>k \<in> set ks. \<exists>t. field_tensor h d k = Some t \<and> cv_shape_ok t"
  shows "\<exists>h' d'. for_each cv_step ks (h, d) = Inr (h', d') \<and>
      (\<forall>k t. field_tensor h d k = Some t \<longrightarrow>
         field_tensor h' d' k = Some (if k \<in> set ks then reshape_column t else t))"
  using assms
proof (induction ks arbitrary: h d)
  case Nil
  then show ?case by simp
next
  case (Cons k ks)
  from Cons.prems obtain t where t: "field_tensor h d k = Some t" "cv_shape_ok t"
    by auto
  let ?h1 = "h @ [reshape_column t]" and ?d1 = "d(k \<mapsto> PTensor (length h))"
  have step: "cv_step k (h, d) = Inr (?h1, ?d1)"
    using cv_step_tensor_ok [OF t] .
  have k1: "field_tensor ?h1 ?d1 k = Some (reshape_column t)"
    by (rule field_tensor_alloc_same)
  have frame: "field_tensor ?h1 ?d1 k' = Some t'"
    if "k' \<noteq> k" "field_tensor h d k' = Some t'" for k' t'
    using field_tensor_alloc_other [OF that] .
  have pre: "\<forall>k' \<in> set ks. \<exists>t. field_tensor ?h1 ?d1 k' = Some t \<and> cv_shape_ok t"
  proof
    fix k' assume "k' \<in> set ks"
    with Cons.prems obtain t' where t': "field_tensor h d k' = Some t'" "cv_shape_ok t'"
      by auto
    show "\<exists>t. field_tensor ?h1 ?d1 k' = Some t \<and> cv_shape_ok t"
    proof (cases "k' = k")
      case True
      with k1 show ?thesis by auto
    next
      case False
      from frame [OF False t'(1)] t'(2) show ?thesis by blast
    qed
  qed
  from Cons.IH [OF pre] obtain h' d' where
    loop: "for_each cv_step ks (?h1, ?d1) = Inr (h', d')" and
    fin: "\<And>k' t'. field_tensor ?h1 ?d1 k' = Some t' \<Longrightarrow>
            field_tensor h' d' k' = Some (if k' \<in> set ks then reshape_column t' else t')"
    by blast
  have "for_each cv_step (k # ks) (h, d) = Inr (h', d')"
    using step loop by simp
  moreover have "field_tensor h' d' k' = Some (if k' \<in> set (k # ks) then reshape_column t' else t')"
    if ft: "field_tensor h d k' = Some t'" for k' t'
  proof (cases "k' = k")
    case True
    with ft t have "t' = t" by simp
    with True fin [OF k1] show ?thesis by simp
  next
    case False
    from fin [OF frame [OF False ft]] False show ?thesis by simp
  qed
  ultimately show ?case by blast
qed

lemma cv_loop_bad:
  assumes "\<forall>k \<in> set ks. \<exists>t. field_tensor h d k = Some t"
    and "\<exists>k \<in> set ks. \<exists>t. field_tensor h d k = Some t \<and> \<not> cv_shape_ok t"
  shows "for_each cv_step ks (h, d) = Inl AssertionError"
  using assms
proof (induction ks arbitrary: h d)
  case Nil
  then show ?case by simp
next
  case (Cons k ks)
  from Cons.prems(1) obtain t where t: "field_tensor h d k = Some t"
    by auto
  show ?case
  proof (cases "cv_shape_ok t")
    case False
    with cv_step_tensor_bad [OF t] show ?thesis by simp
  next
    case True
    let ?h1 = "h @ [reshape_column t]" and ?d1 = "d(k \<mapsto> PTensor (length h))"
    have step: "cv_step k (h, d) = Inr (?h1, ?d1)"
      using cv_step_tensor_ok [OF t True] .
    have k1: "field_tensor ?h1 ?d1 k = Some (reshape_column t)"
      by (rule field_tensor_alloc_same)
    have frame: "field_tensor ?h1 ?d1 k' = Some t'"
      if "k' \<noteq> k" "field_tensor h d k' = Some t'" for k' t'
      using field_tensor_alloc_other [OF that] .
    have pre: "\<forall>k' \<in> set ks. \<exists>t. field_tensor ?h1 ?d1 k' = Some t"
    proof
      fix k' assume "k' \<in> set ks"
      with Cons.prems(1) obtain t' where "field_tensor h d k' = Some t'" by auto
      with frame k1 show "\<exists>t. field_tensor ?h1 ?d1 k' = Some t"
        by (cases "k' = k") auto
    qed
    from Cons.prems(2) obtain kb tb where
      kb: "kb \<in> set (k # ks)" "field_tensor h d kb = Some tb" "\<not> cv_shape_ok tb"
      by blast
    with t True have "kb \<noteq> k" by auto
    with kb frame have "kb \<in> set ks" "field_tensor ?h1 ?d1 kb = Some tb"
      by auto
    with kb(3) have bad: "\<exists>k \<in> set ks. \<exists>t. field_tensor ?h1 ?d1 k = Some t \<and> \<not> cv_shape_ok t"
      by blast
    have "for_each cv_step (k # ks) (h, d) = for_each cv_step ks (?h1, ?d1)"
      using step by simp
    also have "\<dots> = Inl AssertionError"
      by (rule Cons.IH [OF pre bad])
    finally show ?thesis .
  qed
qed

text \<open>
  C7. Every configured field holds a tensor. If each of these tensors is one-dimensional, or
  two-dimensional with second dimension 1, the call returns and each configured field is
  the same elements in shape \<open>(numel, 1)\<close>; a tensor that already has a shape \<open>(n, 1)\<close> is
  returned equal to itself; and a second call on the result returns again and leaves in
  every configured field a tensor equal to that of the first call. If some configured
  tensor has any other shape, the call raises the assertion error. For a field in any of
  the representations (the value of a pair, the array of a list, a tensor), the loop body
  binds the field to the value in shape \<open>(numel, 1)\<close> when the value has one of the two
  accepted shapes, and raises the assertion error otherwise.
\<close>

theorem column_vector_coerces_and_is_idempotent:
  assumes "\<forall>k \<in> set (cv_keys self). \<exists>t. field_tensor h data k = Some t"
  shows "((\<forall>k \<in> set (cv_keys self). \<forall>t. field_tensor h data k = Some t \<longrightarrow>
             length (shape t) = 1 \<or> (length (shape t) = 2 \<and> shape t ! 1 = 1)) \<longrightarrow>
          (\<exists>h1 d1 h2 d2.
             ColumnVector_call self h data = Inr (h1, d1) \<and>
             ColumnVector_call self h1 d1 = Inr (h2, d2) \<and>
             (\<forall>k \<in> set (cv_keys self). \<forall>t. field_tensor h data k = Some t \<longrightarrow>
                field_tensor h1 d1 k = Some \<lparr>shape = [numel (shape t), 1], elems = elems t\<rparr> \<and>
                ((\<exists>n. shape t = [n, 1]) \<longrightarrow> field_tensor h1 d1 k = Some t) \<and>
                field_tensor h2 d2 k = field_tensor h1 d1 k)))
       \<and> ((\<exists>k \<in> set (cv_keys self). \<exists>t. field_tensor h data k = Some t \<and>
              \<not> (length (shape t) = 1 \<or> (length (shape t) = 2 \<and> shape t ! 1 = 1))) \<longrightarrow>
            ColumnVector_call self h data = Inl AssertionError)
       \<and> (\<forall>k raw v is_torch. data k = Some raw \<and> cv_value h raw = Inr (v, is_torch) \<longrightarrow>
            cv_step k (h, data)
              = (if length (shape v) = 1 \<or> (length (shape v) = 2 \<and> shape v ! 1 = 1)
                 then (if is_torch
                       then Inr (h @ [\<lparr>shape = [numel (shape v), 1], elems = elems v\<rparr>],
                                 data(k \<mapsto> PTensor (length h)))
                       else Inr (h, data(k \<mapsto> PArray \<lparr>shape = [numel (shape v), 1],
                                                          elems = elems v\<rparr>)))
                 else Inl AssertionError))"
proof (intro conjI impI)
  assume ok: "\<forall>k \<in> set (cv_keys self). \<forall>t. field_tensor h data k = Some t \<longrightarrow>
             length (shape t) = 1 \<or> (length (shape t) = 2 \<and> shape t ! 1 = 1)"
  with assms have pre: "\<forall>k \<in> set (cv_keys self). \<exists>t. field_tensor h data k = Some t \<and> cv_shape_ok t"
    unfolding cv_shape_ok_def by blast
  from cv_loop_ok [OF pre] obtain h1 d1 where
    c1: "for_each cv_step (cv_keys self) (h, data) = Inr (h1, d1)" and
    r1: "\<And>k t. field_tensor h data k = Some t \<Longrightarrow>
           field_tensor h1 d1 k = Some (if k \<in> set (cv_keys self) then reshape_column t else t)"
    by blast
  have pre1: "\<forall>k \<in> set (cv_keys self). \<exists>t. field_tensor h1 d1 k = Some t \<and> cv_shape_ok t"
  proof
    fix k assume k: "k \<in> set (cv_keys self)"
    with assms obtain t where "field_tensor h data k = Some t" by auto
    from r1 [OF this] k have "field_tensor h1 d1 k = Some (reshape_column t)" by simp
    then show "\<exists>t. field_tensor h1 d1 k = Some t \<and> cv_shape_ok t" by simp
  qed
  from cv_loop_ok [OF pre1] obtain h2 d2 where
    c2: "for_each cv_step (cv_keys self) (h1, d1) = Inr (h2, d2)" and
    r2: "\<And>k t. field_tensor h1 d1 k = Some t \<Longrightarrow>
           field_tensor h2 d2 k = Some (if k \<in> set (cv_keys self) then reshape_column t else t)"
    by blast
  have "field_tensor h1 d1 k = Some \<lparr>shape = [numel (shape t), 1], elems = elems t\<rparr> \<and>
        ((\<exists>n. shape t = [n, 1]) \<longrightarrow> field_tensor h1 d1 k = Some t) \<and>
        field_tensor h2 d2 k = field_tensor h1 d1 k"
    if k: "k \<in> set (cv_keys self)" and ft: "field_tensor h data k = Some t" for k t
  proof -
    from r1 [OF ft] k have f1: "field_tensor h1 d1 k = Some (reshape_column t)" by simp
    from r2 [OF f1] k have f2: "field_tensor h2 d2 k = Some (reshape_column t)" by simp
    from f1 f2 show ?thesis
      by (auto simp: reshape_column_of_column) (simp add: reshape_column_def)
  qed
  with c1 c2 show "\<exists>h1 d1 h2 d2.
             ColumnVector_call self h data = Inr (h1, d1) \<and>
             ColumnVector_call self h1 d1 = Inr (h2, d2) \<and>
             (\<forall>k \<in> set (cv_keys self). \<forall>t. field_tensor h data k = Some t \<longrightarrow>
                field_tensor h1 d1 k = Some \<lparr>shape = [numel (shape t), 1], elems = elems t\<rparr> \<and>
                ((\<exists>n. shape t = [n, 1]) \<longrightarrow> field_tensor h1 d1 k = Some t) \<and>
                field_tensor h2 d2 k = field_tensor h1 d1 k)"
    unfolding ColumnVector_call_def by blast
next
  assume "\<exists>k \<in> set (cv_keys self). \<exists>t. field_tensor h data k = Some t \<and>
              \<not> (length (shape t) = 1 \<or> (length (shape t) = 2 \<and> shape t ! 1 = 1))"
  then have "\<exists>k \<in> set (cv_keys self). \<exists>t. field_tensor h data k = Some t \<and> \<not> cv_shape_ok t"
    unfolding cv_shape_ok_def .
  from cv_loop_bad [OF assms this]
  show "ColumnVector_call self h data = Inl AssertionError"
    unfolding ColumnVector_call_def .
next
  show "\<forall>k raw v is_torch. data k = Some raw \<and> cv_value h raw = Inr (v, is_torch) \<longrightarrow>
            cv_step k (h, data)
              = (if length (shape v) = 1 \<or> (length (shape v) = 2 \<and> shape v ! 1 = 1)
                 then (if is_torch
                       then Inr (h @ [\<lparr>shape = [numel (shape v), 1], elems = elems v\<rparr>],
                                 data(k \<mapsto> PTensor (length h)))
                       else Inr (h, data(k \<mapsto> PArray \<lparr>shape = [numel (shape v), 1],
                                                          elems = elems v\<rparr>)))
                 else Inl AssertionError)"
    by (simp add: cv_step_def and_then_def cv_shape_ok_def reshape_column_def alloc_def)
qed

theorem column_vector_witness:
  "(\<exists>h1 d1 h2 d2.
      ColumnVector_call \<lparr>cv_keys = [''reward'']\<rparr>
        [\<lparr>shape = [3], elems = [5, 6, 7 :: int]\<rparr>] [''reward'' \<mapsto> PTensor 0] = Inr (h1, d1) \<and>
      ColumnVector_call \<lparr>cv_keys = [''reward'']\<rparr> h1 d1 = Inr (h2, d2) \<and>
      field_tensor h1 d1 ''reward'' = Some \<lparr>shape = [3, 1], elems = [5, 6, 7]\<rparr> \<and>
      field_tensor h2 d2 ''reward'' = Some \<lparr>shape = [3, 1], elems = [5, 6, 7]\<rparr>)
   \<and> ColumnVector_call \<lparr>cv_keys = [''reward'']\<rparr>
        [\<lparr>shape = [2, 2], elems = [5, 6, 7, 8 :: int]\<rparr>] [''reward'' \<mapsto> PTensor 0]
      = Inl AssertionError
   \<and> cv_step ''mdp_id'' ([\<lparr>shape = [3], elems = [5, 6, 7 :: int]\<rparr>], [''mdp_id'' \<mapsto> PList [1, 2]])
      = Inr ([\<lparr>shape = [3], elems = [5, 6, 7]\<rparr>],
             [''mdp_id'' \<mapsto> PArray \<lparr>shape = [2, 1], elems = [1, 2]\<rparr>])"
proof -
  let ?self = "\<lparr>cv_keys = [''reward'']\<rparr>"
  let ?d = "[''reward'' \<mapsto> PTensor 0] :: int fields"
  let ?t = "\<lparr>shape = [3], elems = [5, 6, 7 :: int]\<rparr>"
  let ?b = "\<lparr>shape = [2, 2], elems = [5, 6, 7, 8 :: int]\<rparr>"
  have ft: "field_tensor [?t] ?d ''reward'' = Some ?t"
    and fb: "field_tensor [?b] ?d ''reward'' = Some ?b"
    by (simp_all add: field_tensor_def)
  have pt: "\<forall>k \<in> set (cv_keys ?self). \<exists>t. field_tensor [?t] ?d k = Some t"
    and pb: "\<forall>k \<in> set (cv_keys ?self). \<exists>t. field_tensor [?b] ?d k = Some t"
    using ft fb by simp_all
  from column_vector_coerces_and_is_idempotent [OF pt] ft
  have good: "\<exists>h1 d1 h2 d2.
      ColumnVector_call ?self [?t] ?d = Inr (h1, d1) \<and>
      ColumnVector_call ?self h1 d1 = Inr (h2, d2) \<and>
      field_tensor h1 d1 ''reward'' = Some \<lparr>shape = [3, 1], elems = [5, 6, 7]\<rparr> \<and>
      field_tensor h2 d2 ''reward'' = Some \<lparr>shape = [3, 1], elems = [5, 6, 7]\<rparr>"
    by (simp add: numel_def) metis
  from column_vector_coerces_and_is_idempotent [OF pb] fb
  have bad: "ColumnVector_call ?self [?b] ?d = Inl AssertionError"
    by simp
  let ?l = "[''mdp_id'' \<mapsto> PList [1, 2]] :: int fields"
  have pl: "\<forall>k \<in> set (cv_keys \<lparr>cv_keys = []\<rparr>). \<exists>t. field_tensor [?t] ?l k = Some t"
    by simp
  have lv: "?l ''mdp_id'' = Some (PList [1, 2])
      \<and> cv_value [?t] (PList [1, 2]) = Inr (\<lparr>shape = [2], elems = [1, 2]\<rparr>, False)"
    by (simp add: cv_value_def)
  from column_vector_coerces_and_is_idempotent [OF pl] lv
  have "cv_step ''mdp_id'' ([?t], ?l)
      = (if length (shape \<lparr>shape = [2], elems = [1, 2 :: int]\<rparr>) = 1
            \<or> (length (shape \<lparr>shape = [2], elems = [1, 2 :: int]\<rparr>) = 2
               \<and> shape \<lparr>shape = [2], elems = [1, 2 :: int]\<rparr> ! 1 = 1)
         then (if False
               then Inr ([?t] @ [\<lparr>shape = [numel (shape \<lparr>shape = [2], elems = [1, 2 :: int]\<rparr>), 1],
                                  elems = elems \<lparr>shape = [2], elems = [1, 2 :: int]\<rparr>\<rparr>],
                         ?l(''mdp_id'' \<mapsto> PTensor (length [?t])))
               else Inr ([?t], ?l(''mdp_id'' \<mapsto> PArray \<lparr>shape = [numel (shape \<lparr>shape = [2], elems = [1, 2 :: int]\<rparr>), 1],
                                  elems = elems \<lparr>shape = [2], elems = [1, 2 :: int]\<rparr>\<rparr>)))
         else Inl AssertionError)"
    by blast
  then have lst: "cv_step ''mdp_id'' ([?t], ?l)
      = Inr ([?t], [''mdp_id'' \<mapsto> PArray \<lparr>shape = [2, 1], elems = [1, 2]\<rparr>])"
    by (simp add: numel_def)
  from good bad lst show ?thesis by blast
qed

subsection \<open>Rename and Filter leave the dict they receive as it was\<close>

lemma rename_loop_frame:
  assumes "a < length ds" and "n \<le> a"
  shows "take n (fst (rename_loop ps a ds)) = take n ds
       \<and> length (fst (rename_loop ps a ds)) = length ds
       \<and> (\<forall>r. snd (rename_loop ps a ds) = Inr r \<longrightarrow> r = a)"
  using assms
proof (induction ps arbitrary: ds)
  case Nil
  then show ?case by simp
next
  case (Cons p ps)
  obtain old new where p: "p = (old, new)" by (cases p)
  show ?case
  proof (cases "(ds ! a) old")
    case None
    with p show ?thesis by simp
  next
    case (Some v)
    let ?ds = "ds[a := ((ds ! a)(old := None))(new \<mapsto> v)]"
    have "a < length ?ds" using Cons.prems by simp
    from Cons.IH [OF this Cons.prems(2)] Cons.prems p Some
    show ?thesis by simp
  qed
qed

lemma keep_loop_frame:
  assumes "n \<le> b"
  shows "take n (keep_loop ks a b ds) = take n ds \<and> length (keep_loop ks a b ds) = length ds"
  using assms
  by (induction ks arbitrary: ds) (auto split: option.splits)

lemma remove_loop_frame:
  assumes "n \<le> b"
  shows "take n (remove_loop ks b ds) = take n ds \<and> length (remove_loop ks b ds) = length ds"
  using assms
  by (induction ks arbitrary: ds) (auto split: option.splits)

text \<open>
  C10. A call of \<open>Rename\<close> or of \<open>Filter\<close> (with a keep-list or with a remove-list, and
  also when it raises) leaves every dict that existed before the call with the key-value
  pairs it had, the dict it received among them; and the dict it returns is a new one.
\<close>

theorem rename_and_filter_do_not_mutate_input:
  assumes "data < length ds"
  shows "take (length ds) (fst (Rename_call r ds data)) = ds
       \<and> fst (Rename_call r ds data) ! data = ds ! data
       \<and> (\<forall>new_data. snd (Rename_call r ds data) = Inr new_data \<longrightarrow>
            new_data = length ds \<and> new_data < length (fst (Rename_call r ds data)))
       \<and> take (length ds) (fst (Filter_call f ds data)) = ds
       \<and> fst (Filter_call f ds data) ! data = ds ! data
       \<and> (\<forall>new_data. snd (Filter_call f ds data) = Inr new_data \<longrightarrow>
            new_data = length ds \<and> new_data < length (fst (Filter_call f ds data)))"
proof -
  let ?R = "Rename_call r ds data" and ?F = "Filter_call f ds data"
  have R: "take (length ds) (fst ?R) = ds \<and> length (fst ?R) = Suc (length ds)
         \<and> (\<forall>a. snd ?R = Inr a \<longrightarrow> a = length ds)"
    using rename_loop_frame [of "length ds" "ds @ [ds ! data]" "length ds"
            "zip (old_names r) (new_names r)"] assms
    by (simp add: Rename_call_def Let_def)
  have F: "take (length ds) (fst ?F) = ds \<and> (\<forall>a. snd ?F = Inr a \<longrightarrow> a = length ds \<and> a < length (fst ?F))"
    using keep_loop_frame [of "length ds" "length ds" _ data "ds @ [Map.empty]"]
      remove_loop_frame [of "length ds" "length ds" _ "ds @ [ds ! data]"] assms
    by (auto simp: Filter_call_def filter_remove_def Let_def simp del: keep_loop.simps remove_loop.simps
             split: option.splits list.splits)
  have nth: "xs ! data = ds ! data" if "take (length ds) xs = ds" for xs :: "'a dicts"
  proof -
    have "take (length ds) xs ! data = xs ! data"
      using assms by simp
    with that show ?thesis by simp
  qed
  from R F nth [of "fst ?R"] nth [of "fst ?F"] show ?thesis by auto
qed

theorem rename_and_filter_witness:
  "fst (Rename_call \<lparr>old_names = [''a''], new_names = [''b'']\<rparr>
         [[''a'' \<mapsto> PList [1 :: int]]] 0) ! 0 = [''a'' \<mapsto> PList [1]]
   \<and> snd (Rename_call \<lparr>old_names = [''a''], new_names = [''b'']\<rparr>
         [[''a'' \<mapsto> PList [1 :: int]]] 0) = Inr 1
   \<and> fst (Filter_call \<lparr>keep_keys = None, remove_keys = Some [''a'']\<rparr>
         [[''a'' \<mapsto> PList [1 :: int]]] 0) ! 0 = [''a'' \<mapsto> PList [1]]
   \<and> snd (Filter_call \<lparr>keep_keys = None, remove_keys = Some [''a'']\<rparr>
         [[''a'' \<mapsto> PList [1 :: int]]] 0) = Inr 1"
proof -
  let ?ds = "[[''a'' \<mapsto> PList [1 :: int]]]"
  have pre: "0 < length ?ds" by simp
  have r: "snd (Rename_call \<lparr>old_names = [''a''], new_names = [''b'']\<rparr> ?ds 0) = Inr 1"
    by (simp add: Rename_call_def)
  have f: "snd (Filter_call \<lparr>keep_keys = None, remove_keys = Some [''a'']\<rparr> ?ds 0) = Inr 1"
    by (simp add: Filter_call_def filter_remove_def)
  from rename_and_filter_do_not_mutate_input
         [OF pre, of "\<lparr>old_names = [''a''], new_names = [''b'']\<rparr>"
            "\<lparr>keep_keys = None, remove_keys = Some [''a'']\<rparr>"] r f
  show ?thesis by simp
qed

subsection \<open>Rename with lists of unequal length\<close>

text \<open>
  Constructing \<open>Rename([a, b], [c])\<close> returns an instance, and a call of that instance on
  a dict with the fields \<open>a\<close> and \<open>b\<close> returns a dict in which \<open>a\<close> has become \<open>c\<close> and
  \<open>b\<close> is as before: no error is raised for the unequal lengths, at construction or later.
\<close>

theorem rename_unequal_lengths_constructs:
  "Rename_init [''a'', ''b''] [''c''] = Inr \<lparr>old_names = [''a'', ''b''], new_names = [''c'']\<rparr>
   \<and> Rename_call \<lparr>old_names = [''a'', ''b''], new_names = [''c'']\<rparr>
        [[''a'' \<mapsto> PList [1 :: int], ''b'' \<mapsto> PList [2]]] 0
     = ([[''a'' \<mapsto> PList [1], ''b'' \<mapsto> PList [2]],
         [''b'' \<mapsto> PList [2], ''c'' \<mapsto> PList [1]]], Inr 1)"
  by (auto simp: Rename_init_def Rename_call_def fun_upd_def)

lemma zip_take_min:
  "zip (take (min (length xs) (length ys)) xs) (take (min (length xs) (length ys)) ys) = zip xs ys"
  by (simp add: take_zip [symmetric])

text \<open>
  C5, amended. Constructing a \<open>Rename\<close> never raises, whatever the lengths of the two
  lists; a call pairs the old and new names by position up to the length of the shorter
  list and ignores the names beyond it.
\<close>

theorem rename_init_total_and_call_truncates:
  "Rename_init olds news = Inr \<lparr>old_names = olds, new_names = news\<rparr>
   \<and> Rename_call \<lparr>old_names = olds, new_names = news\<rparr> ds data
     = Rename_call \<lparr>old_names = take (min (length olds) (length news)) olds,
                     new_names = take (min (length olds) (length news)) news\<rparr> ds data"
  by (simp add: Rename_init_def Rename_call_def zip_take_min del: take_zip)

subsection \<open>MapIDListFeatures and absent sparse fields\<close>

lemma mid_step_no_key_error:
  "mid_step pil pisl self k st \<noteq> Inl (KeyError k')"
  by (cases st)
     (auto simp: mid_step_def split: option.splits pyval.splits list.splits prod.splits)

lemma mid_loop_no_key_error:
  "for_each (mid_step pil pisl self) ks st \<noteq> Inl (KeyError k')"
proof (induction ks arbitrary: st)
  case Nil
  then show ?case by simp
next
  case (Cons k ks)
  show ?case
  proof (cases "mid_step pil pisl self k st")
    case (Inl e)
    with mid_step_no_key_error [of pil pisl self k st k'] show ?thesis by auto
  next
    case (Inr st')
    with Cons.IH [of st'] show ?thesis by simp
  qed
qed

lemma mid_step_absent:
  assumes "mid_step pil pisl self k' (h, d) = Inr (h', d')"
    and "d k = None \<or> d k = Some PNone"
  shows "(d' k = None \<or> d' k = Some PNone) \<and> (k' = k \<longrightarrow> d' k = Some PNone)
       \<and> (d k = Some PNone \<longrightarrow> d' k = Some PNone)"
  using assms
  by (auto simp: mid_step_def split: if_splits option.splits pyval.splits prod.splits)

lemma mid_loop_absent:
  assumes "for_each (mid_step pil pisl self) ks (h, d) = Inr (h', d')"
    and "d k = None \<or> d k = Some PNone"
  shows "(d' k = None \<or> d' k = Some PNone) \<and> (k \<in> set ks \<longrightarrow> d' k = Some PNone)
       \<and> (d k = Some PNone \<longrightarrow> d' k = Some PNone)"
  using assms
proof (induction ks arbitrary: h d)
  case Nil
  then show ?case by simp
next
  case (Cons k' ks)
  from Cons.prems(1) obtain h1 d1 where
    step: "mid_step pil pisl self k' (h, d) = Inr (h1, d1)" and
    rest: "for_each (mid_step pil pisl self) ks (h1, d1) = Inr (h', d')"
    by (auto split: sum.splits)
  from mid_step_absent [OF step Cons.prems(2)] have
    s: "d1 k = None \<or> d1 k = Some PNone" "k' = k \<longrightarrow> d1 k = Some PNone"
       "d k = Some PNone \<longrightarrow> d1 k = Some PNone"
    by simp_all
  from Cons.IH [OF rest s(1)] s show ?case by auto
qed

lemma mid_loop_no_vocabulary:
  assumes "id2name (feature_config self) = []"
  shows "for_each (mid_step pil pisl self) ks (h, d)
       = Inr (h, \<lambda>k. if k \<in> set ks then Some PNone else d k)"
proof (induction ks arbitrary: d)
  case Nil
  then show ?case by simp
next
  case (Cons k ks)
  have step: "mid_step pil pisl self k (h, d) = Inr (h, d(k \<mapsto> PNone))"
    using assms by (simp add: mid_step_def)
  have "for_each (mid_step pil pisl self) (k # ks) (h, d)
      = for_each (mid_step pil pisl self) ks (h, d(k \<mapsto> PNone))"
    by (simp only: for_each.simps step sum.case)
  also have "\<dots> = Inr (h, \<lambda>k'. if k' \<in> set ks then Some PNone else (d(k \<mapsto> PNone)) k')"
    by (rule Cons.IH)
  also have "(\<lambda>k'. if k' \<in> set ks then Some PNone else (d(k \<mapsto> PNone)) k')
      = (\<lambda>k'. if k' \<in> set (k # ks) then Some PNone else d k')"
    by auto
  finally show ?case .
qed

text \<open>
  C8. A call never raises the missing-field error. The loop body for a key that the record
  does not hold binds the key to \<open>None\<close> and goes on, whatever the feature configuration
  declares; so when the call returns, every configured key that was absent is bound to
  \<open>None\<close>. When the configuration declares no identifier vocabulary (\<open>id2name\<close> is
  empty), the call returns, every configured key is bound to \<open>None\<close>, whatever it held,
  and nothing else changes.
\<close>

theorem map_id_list_features_absent_key_becomes_none:
  "(\<forall>k. MapIDListFeatures_call pil pisl self h data \<noteq> Inl (KeyError k))
   \<and> (\<forall>k. data k = None \<longrightarrow> mid_step pil pisl self k (h, data) = Inr (h, data(k \<mapsto> PNone)))
   \<and> (\<forall>h' data'. MapIDListFeatures_call pil pisl self h data = Inr (h', data') \<longrightarrow>
         (\<forall>k \<in> set (id_list_keys self @ id_score_list_keys self).
            data k = None \<longrightarrow> data' k = Some PNone))
   \<and> (id2name (feature_config self) = [] \<longrightarrow>
         MapIDListFeatures_call pil pisl self h data
           = Inr (h, \<lambda>k. if k \<in> set (id_list_keys self @ id_score_list_keys self)
                          then Some PNone else data k))"
proof (intro conjI allI impI ballI)
  fix k
  show "MapIDListFeatures_call pil pisl self h data \<noteq> Inl (KeyError k)"
    unfolding MapIDListFeatures_call_def by (rule mid_loop_no_key_error)
next
  fix k assume "data k = None"
  then show "mid_step pil pisl self k (h, data) = Inr (h, data(k \<mapsto> PNone))"
    by (simp add: mid_step_def)
next
  fix h' data' k
  assume "MapIDListFeatures_call pil pisl self h data = Inr (h', data')"
    and "k \<in> set (id_list_keys self @ id_score_list_keys self)" and "data k = None"
  then show "data' k = Some PNone"
    using mid_loop_absent [of pil pisl self _ h data h' data' k]
    unfolding MapIDListFeatures_call_def by blast
next
  assume "id2name (feature_config self) = []"
  then show "MapIDListFeatures_call pil pisl self h data
           = Inr (h, \<lambda>k. if k \<in> set (id_list_keys self @ id_score_list_keys self)
                          then Some PNone else data k)"
    unfolding MapIDListFeatures_call_def by (rule mid_loop_no_vocabulary)
qed

theorem map_id_list_features_witness:
  "MapIDListFeatures_call (\<lambda>sp h m. Some (h, PDict m)) (\<lambda>sp h m. Some (h, PDict m))
     \<lparr>id_list_keys = [''ids''], id_score_list_keys = [''scores''],
      feature_config = \<lparr>id2name = [(1, ''page'')]\<rparr>, sparse_preprocessor = Some ()\<rparr>
     ([] :: int heap) [''ids'' \<mapsto> PDict []]
   = Inr ([], [''ids'' \<mapsto> PDict [], ''scores'' \<mapsto> PNone])
   \<and> MapIDListFeatures_call (\<lambda>sp h m. Some (h, PDict m)) (\<lambda>sp h m. Some (h, PDict m))
     \<lparr>id_list_keys = [''ids''], id_score_list_keys = [''scores''],
      feature_config = \<lparr>id2name = []\<rparr>, sparse_preprocessor = Some ()\<rparr>
     ([] :: int heap) [''ids'' \<mapsto> PDict []]
   = Inr ([], [''ids'' \<mapsto> PNone, ''scores'' \<mapsto> PNone])"
proof -
  let ?f = "\<lambda>(sp :: unit) (h :: int heap) (m :: (int \<times> int list \<times> int pyval) list). Some (h, PDict m :: int pyval)"
  let ?s1 = "\<lparr>id_list_keys = [''ids''], id_score_list_keys = [''scores''],
      feature_config = \<lparr>id2name = [(1, ''page'')]\<rparr>, sparse_preprocessor = Some ()\<rparr>"
  let ?s0 = "\<lparr>id_list_keys = [''ids''], id_score_list_keys = [''scores''],
      feature_config = \<lparr>id2name = []\<rparr>, sparse_preprocessor = Some ()\<rparr>"
  let ?d = "[''ids'' \<mapsto> PDict []] :: int fields"
  have call: "MapIDListFeatures_call ?f ?f ?s1 [] ?d
      = Inr ([], [''ids'' \<mapsto> PDict [], ''scores'' \<mapsto> PNone])"
    by (simp add: MapIDListFeatures_call_def mid_step_def)
  have absent: "?d ''scores'' = None" by simp
  from map_id_list_features_absent_key_becomes_none [of ?f ?f ?s1 "[]" ?d]
  have "[''ids'' \<mapsto> PDict [], ''scores'' \<mapsto> PNone] ''scores'' = Some (PNone :: int pyval)"
    using call absent by simp
  moreover
  from map_id_list_features_absent_key_becomes_none [of ?f ?f ?s0 "[]" ?d]
  have "MapIDListFeatures_call ?f ?f ?s0 [] ?d
      = Inr ([], \<lambda>k. if k \<in> set (id_list_keys ?s0 @ id_score_list_keys ?s0) then Some PNone else ?d k)"
    by simp
  moreover have "(\<lambda>k. if k \<in> set (id_list_keys ?s0 @ id_score_list_keys ?s0) then Some PNone else ?d k)
      = [''ids'' \<mapsto> PNone, ''scores'' \<mapsto> PNone]"
    by auto
  ultimately show ?thesis using call by simp
qed

subsection \<open>When the collaborator objects are built\<close>

text \<open>
  The constructor of \<open>MapIDListFeatures\<close> returns an instance that already holds the
  sparse preprocessor made by \<open>make_sparse_preprocessor\<close>: the object is built at
  construction, before any call.
\<close>

theorem map_id_list_features_init_builds_encoder:
  "MapIDListFeatures_init (\<lambda>config dev. Some (config, dev)) [''ids''] [''scores'']
     \<lparr>id2name = [(1, ''page'')]\<rparr> CPU
   = Inr \<lparr>id_list_keys = [''ids''], id_score_list_keys = [''scores''],
          feature_config = \<lparr>id2name = [(1, ''page'')]\<rparr>,
          sparse_preprocessor = Some (\<lparr>id2name = [(1, ''page'')]\<rparr>, CPU)\<rparr>"
  by (simp add: MapIDListFeatures_init_def)

text \<open>
  C4, amended. \<open>DenseNormalization\<close> builds its normalization object lazily: a constructed
  instance holds none, a call on it builds the object from the dense normalization
  parameters and the device (also when the call then raises), and a call on an instance
  that holds an object keeps that object. \<open>MapIDListFeatures\<close> builds its sparse
  preprocessor in the constructor: a constructed instance holds the object that
  \<open>make_sparse_preprocessor\<close> returned for the feature configuration and the device.
\<close>

theorem dense_normalization_lazy_map_id_list_eager:
  "(\<forall>inst. DenseNormalization_init keys nd dev = Inr inst \<longrightarrow>
      dn_preprocessor inst = None \<and>
      dn_preprocessor (fst (DenseNormalization_call isnan Preprocessor run inst h data))
        = Some (Preprocessor (dense_normalization_parameters nd)
                  (case dev of None \<Rightarrow> CPU | Some d \<Rightarrow> d)))
   \<and> (\<forall>p. dn_preprocessor self = Some p \<longrightarrow>
         dn_preprocessor (fst (DenseNormalization_call isnan Preprocessor run self h data)) = Some p)
   \<and> (\<forall>inst. MapIDListFeatures_init make_sparse_preprocessor il_keys isl_keys config sdev = Inr inst \<longrightarrow>
         (\<exists>sp. make_sparse_preprocessor config sdev = Some sp \<and> sparse_preprocessor inst = Some sp))"
  by (auto simp: DenseNormalization_init_def DenseNormalization_call_def Let_def
        MapIDListFeatures_init_def split: if_splits option.splits)

theorem dense_normalization_lazy_witness:
  "dn_preprocessor
     (fst (DenseNormalization_call (\<lambda>x :: int. False) (\<lambda>np dev. (np, dev)) (\<lambda>p v presence. Some v)
             \<lparr>dn_keys = [''state''], dn_normalization_data = \<lparr>dense_normalization_parameters = ()\<rparr>,
              dn_device = CPU, dn_preprocessor = None\<rparr> [] Map.empty))
   = Some ((), CPU)
   \<and> dn_preprocessor
     (fst (DenseNormalization_call (\<lambda>x :: int. False) (\<lambda>np dev. (np, dev)) (\<lambda>p v presence. Some v)
             \<lparr>dn_keys = [''state''], dn_normalization_data = \<lparr>dense_normalization_parameters = ()\<rparr>,
              dn_device = CPU, dn_preprocessor = Some ((), CUDA 0)\<rparr> [] Map.empty))
   = Some ((), CUDA 0)
   \<and> MapIDListFeatures_init (\<lambda>config dev. Some dev) [''ids''] [] \<lparr>id2name = []\<rparr> CPU
   = Inr \<lparr>id_list_keys = [''ids''], id_score_list_keys = [],
          feature_config = \<lparr>id2name = []\<rparr>, sparse_preprocessor = Some CPU\<rparr>"
proof -
  let ?P = "\<lambda>(np :: unit) (dev :: device). (np, dev)"
  let ?run = "\<lambda>(p :: unit \<times> device) (v :: int tensor) (presence :: int tensor). Some v"
  let ?nd = "\<lparr>dense_normalization_parameters = ()\<rparr>"
  let ?new = "\<lparr>dn_keys = [''state''], dn_normalization_data = ?nd,
              dn_device = CPU, dn_preprocessor = None :: (unit \<times> device) option\<rparr>"
  let ?used = "\<lparr>dn_keys = [''state''], dn_normalization_data = ?nd,
              dn_device = CPU, dn_preprocessor = Some ((), CUDA 0)\<rparr>"
  let ?mk = "\<lambda>(config :: ModelFeatureConfig) (dev :: device). Some dev"
  have init: "DenseNormalization_init [''state''] ?nd None = Inr ?new"
    by (simp add: DenseNormalization_init_def)
  have held: "dn_preprocessor ?used = Some ((), CUDA 0)"
    by simp
  have minit: "MapIDListFeatures_init ?mk [''ids''] [] \<lparr>id2name = []\<rparr> CPU
      = Inr \<lparr>id_list_keys = [''ids''], id_score_list_keys = [],
             feature_config = \<lparr>id2name = []\<rparr>, sparse_preprocessor = Some CPU\<rparr>"
    by (simp add: MapIDListFeatures_init_def)
  from dense_normalization_lazy_map_id_list_eager
         [of "[''state'']" ?nd None "\<lambda>x :: int. False" ?P ?run "[]" Map.empty ?used
             ?mk "[''ids'']" "[]" "\<lparr>id2name = []\<rparr>" CPU]
       init held minit
  show ?thesis by simp
qed

subsection \<open>Cat with broadcasting\<close>

lemma concat_blocks:
  "length xs = a * n \<Longrightarrow> concat (map (\<lambda>i. take n (drop (i * n) xs)) [0 ..< a]) = xs"
proof (induction a arbitrary: xs)
  case 0
  then show ?case by simp
next
  case (Suc a)
  have len: "length (drop n xs) = a * n"
    using Suc.prems by simp
  have "[0 ..< Suc a] = 0 # map Suc [0 ..< a]"
    by (simp add: upt_conv_Cons map_Suc_upt del: upt_Suc)
  then have "concat (map (\<lambda>i. take n (drop (i * n) xs)) [0 ..< Suc a])
      = take n xs @ concat (map (\<lambda>i. take n (drop (Suc i * n) xs)) [0 ..< a])"
    by (simp add: comp_def del: upt_Suc)
  also have "(\<lambda>i. take n (drop (Suc i * n) xs)) = (\<lambda>i. take n (drop (i * n) (drop n xs)))"
    by (simp add: add.commute)
  also have "concat (map (\<lambda>i. take n (drop (i * n) (drop n xs))) [0 ..< a]) = drop n xs"
    by (rule Suc.IH [OF len])
  finally show ?case by simp
qed

lemma expand_elems_same:
  "length xs = numel s \<Longrightarrow> expand_elems s s xs = xs"
proof (induction s arbitrary: xs)
  case Nil
  then show ?case by simp
next
  case (Cons a s)
  have "expand_elems s s (take (numel s) (drop (i * numel s) xs)) = take (numel s) (drop (i * numel s) xs)"
    if "i < a" for i
  proof (rule Cons.IH)
    have "Suc i * numel s \<le> a * numel s"
      using that by (intro mult_le_mono1) simp
    then show "length (take (numel s) (drop (i * numel s) xs)) = numel s"
      using Cons.prems by (simp add: numel_def)
  qed
  then have m: "map (\<lambda>i. expand_elems s s (take (numel s) (drop (i * numel s) xs))) [0 ..< a]
      = map (\<lambda>i. take (numel s) (drop (i * numel s) xs)) [0 ..< a]"
    by (intro map_cong refl) simp
  have "expand_elems (a # s) (a # s) xs
      = concat (map (\<lambda>i. expand_elems s s (take (numel s) (drop (i * numel s) xs))) [0 ..< a])"
    by simp
  also have "\<dots> = concat (map (\<lambda>i. take (numel s) (drop (i * numel s) xs)) [0 ..< a])"
    by (simp only: m)
  also have "\<dots> = xs"
    using Cons.prems by (intro concat_blocks) (simp add: numel_def)
  finally show ?case .
qed

lemma nth_concat_blocks:
  assumes "\<And>i. i < m \<Longrightarrow> length (f i) = n" and "j < m" and "c < n"
  shows "concat (map f [0 ..< m]) ! (j * n + c) = f j ! c"
  using assms
proof (induction m)
  case 0
  then show ?case by simp
next
  case (Suc m)
  have len: "length (concat (map f [0 ..< m])) = m * n"
    using Suc.prems(1) by (induction m) simp_all
  show ?case
  proof (cases "j < m")
    case True
    then have "Suc j * n \<le> m * n"
      by (intro mult_le_mono1) simp
    with Suc.prems(3) have "j * n + c < m * n" by simp
    with Suc.IH [OF _ True Suc.prems(3)] Suc.prems(1) len show ?thesis
      by (simp add: nth_append)
  next
    case False
    with Suc.prems(2) have "j = m" by simp
    with len show ?thesis by (simp add: nth_append)
  qed
qed

lemma length_concat_replicate: "length (concat (replicate m xs)) = m * length xs"
  by (induction m) simp_all

lemma nth_concat_replicate:
  assumes "j < m" and "c < length xs"
  shows "concat (replicate m xs) ! (j * length xs + c) = xs ! c"
proof -
  have "concat (replicate m xs) = concat (map (\<lambda>i. xs) [0 ..< m])"
    by (simp add: map_replicate_const)
  with nth_concat_blocks [of m "\<lambda>i. xs" "length xs" j c] assms show ?thesis
    by simp
qed

lemma broadcast_10_3_5_with_1_3_3:
  assumes s1: "shape t1 = [10, 3, 5]" and s2: "shape t2 = [1, 3, 3]"
    and w1: "wf_tensor t1" and w2: "wf_tensor t2"
  shows "broadcast_tensors_for_cat [t1, t2] 2
       = Inr [\<lparr>shape = [10, 3, 5], elems = elems t1\<rparr>,
              \<lparr>shape = [10, 3, 3], elems = concat (replicate 10 (elems t2))\<rparr>]"
proof -
  have pops: "map_err (\<lambda>(t, d). py_pop (shape t) d) (zip [t1, t2] [2, 2]) = Inr [[10, 3], [1, 3]]"
    by (simp add: py_pop_def py_position_def s1 s2)
  have bc: "broadcast_shapes [[10, 3], [1, 3]] = Inr [10, 3]"
    by (simp add: broadcast_shapes_def)
  have fin: "map_err (\<lambda>(t, d). and_then (py_index (shape t) 2) (\<lambda>c. Inr (py_insert [10, 3] d c)))
               (zip [t1, t2] [2, 2]) = Inr [[10, 3, 5], [10, 3, 3]]"
    by (simp add: py_index_def py_position_def py_insert_def and_then_def s1 s2)
  have l1: "length (elems t1) = numel [10, 3, 5]" and l2: "length (elems t2) = numel [3, 3]"
    using w1 w2 by (simp_all add: wf_tensor_def s1 s2 numel_def)
  have e1: "expand t1 [10, 3, 5] = Inr \<lparr>shape = [10, 3, 5], elems = elems t1\<rparr>"
    using expand_elems_same [OF l1] by (simp add: expand_def s1 del: expand_elems.simps)
  have "expand_elems [1, 3, 3] [10, 3, 3] (elems t2) = concat (replicate 10 (elems t2))"
    using expand_elems_same [OF l2] by simp
  then have e2: "expand t2 [10, 3, 3]
      = Inr \<lparr>shape = [10, 3, 3], elems = concat (replicate 10 (elems t2))\<rparr>"
    by (simp add: expand_def s2 del: expand_elems.simps)
  show ?thesis
    unfolding broadcast_tensors_for_cat_def
    using pops bc fin e1 e2 by (simp add: and_then_def del: expand_elems.simps)
qed

lemma cat_10_3_5_with_10_3_3:
  "cat [\<lparr>shape = [10, 3, 5], elems = xs\<rparr>, \<lparr>shape = [10, 3, 3], elems = ys\<rparr>] 2
   = Inr \<lparr>shape = [10, 3, 8],
          elems = concat (map (\<lambda>i. take 5 (drop (i * 5) xs) @ take 3 (drop (i * 3) ys)) [0 ..< 30])\<rparr>"
  by (simp add: cat_def numel_def Let_def numeral_2_eq_2)

lemma map_err_map: "map_err f (map g xs) = map_err (\<lambda>x. f (g x)) xs"
  by (induction xs) (simp_all split: sum.splits)

lemma map_err_total:
  "(\<And>x. x \<in> set xs \<Longrightarrow> f x = Inr (g x)) \<Longrightarrow> map_err f xs = Inr (map g xs)"
  by (induction xs) simp_all

lemma map_err_Inr:
  "map_err f xs = Inr ys \<Longrightarrow> length ys = length xs \<and> (\<forall>i < length xs. f (xs ! i) = Inr (ys ! i))"
proof (induction xs arbitrary: ys)
  case Nil
  then show ?case by simp
next
  case (Cons x xs)
  from Cons.prems obtain y ys' where
    y: "f x = Inr y" and r: "map_err f xs = Inr ys'" and ys: "ys = y # ys'"
    by (auto split: sum.splits)
  from Cons.IH [OF r] y ys show ?case
    by (auto simp: nth_Cons split: nat.splits)
qed

lemma broadcast_into_length:
  "broadcast_into res s = Inr res' \<Longrightarrow> length res' = length res"
  by (induction res s arbitrary: res' rule: broadcast_into.induct)
     (auto split: if_splits sum.splits)

lemma broadcast_loop_length:
  "for_each (\<lambda>s res. broadcast_into res (rev s)) shapes res = Inr res' \<Longrightarrow> length res' = length res"
proof (induction shapes arbitrary: res)
  case Nil
  then show ?case by simp
next
  case (Cons s shapes)
  from Cons.prems obtain r1 where
    "broadcast_into res (rev s) = Inr r1"
    "for_each (\<lambda>s res. broadcast_into res (rev s)) shapes r1 = Inr res'"
    by (auto split: sum.splits)
  with Cons.IH [of r1] broadcast_into_length [of res "rev s" r1] show ?case by simp
qed

lemma fold_max_length:
  "\<forall>s \<in> set shapes. length s = m \<Longrightarrow>
   fold (\<lambda>s k. max k (length s)) shapes k0 = (if shapes = [] then k0 else max k0 m)"
  by (induction shapes arbitrary: k0) auto

lemma broadcast_shapes_length:
  assumes "broadcast_shapes shapes = Inr B" and "shapes \<noteq> []" and "\<forall>s \<in> set shapes. length s = m"
  shows "length B = m"
proof -
  let ?k = "fold (\<lambda>s k. max k (length s)) shapes 0"
  from assms(1) obtain res where
    r: "for_each (\<lambda>s res. broadcast_into res (rev s)) shapes (replicate ?k 1) = Inr res" and
    B: "B = rev res"
    unfolding broadcast_shapes_def by (auto split: sum.splits)
  have "?k = m"
    using fold_max_length [OF assms(3), of 0] assms(2) by simp
  with broadcast_loop_length [OF r] B show ?thesis by simp
qed

lemma expand_shape: "expand t s = Inr t' \<Longrightarrow> shape t' = s"
  by (auto simp: expand_def Let_def split: if_splits)

text \<open>
  For tensors that all have \<open>n\<close> dimensions and a concatenation dimension inside them:
  what \<open>_broadcast_tensors_for_cat\<close> returns has, in every tensor, the broadcast of the
  shapes without the concatenation dimension, with the tensor's own size at that
  dimension.
\<close>

lemma broadcast_tensors_for_cat_shapes:
  fixes ts :: "'a tensor list"
  assumes ne: "ts \<noteq> []" and rank: "\<forall>t \<in> set ts. length (shape t) = n"
    and lo: "- int n \<le> dim" and hi: "dim < int n"
    and res: "broadcast_tensors_for_cat ts dim = Inr ts'"
    and d: "d = nat (if dim < 0 then dim + int n else dim)"
  shows "length ts' = length ts \<and>
      (\<exists>B. length B = n - 1 \<and>
           broadcast_shapes (map (\<lambda>t. take d (shape t) @ drop (Suc d) (shape t)) ts) = Inr B \<and>
           (\<forall>i < length ts. shape (ts' ! i) = take d B @ [shape (ts ! i) ! d] @ drop d B))"
proof -
  let ?dd = "if 0 \<le> dim then dim else int n + dim"
  let ?dims = "if 0 \<le> dim then replicate (length ts) dim
               else map (\<lambda>t. int (length (shape t)) + dim) ts"
  have dn: "d < n" and dd: "?dd = int d"
    using lo hi d by auto
  have "map (\<lambda>t. int (length (shape t)) + dim) ts = map (\<lambda>t. int n + dim) ts"
    using rank by (intro map_cong refl) simp
  then have "?dims = map (\<lambda>t. ?dd) ts"
    by (simp add: map_replicate_const)
  then have z: "zip ts ?dims = map (\<lambda>t. (t, ?dd)) ts"
    by (simp add: zip_map2 zip_same_conv_map)
  have pops: "map_err (\<lambda>(t, d). py_pop (shape t) d) (zip ts ?dims)
      = Inr (map (\<lambda>t. take d (shape t) @ drop (Suc d) (shape t)) ts)"
    unfolding z map_err_map
  proof (rule map_err_total)
    fix t assume "t \<in> set ts"
    with rank have "length (shape t) = n" by simp
    with dn dd show "(case (t, ?dd) of (t, d) \<Rightarrow> py_pop (shape t) d)
        = Inr (take d (shape t) @ drop (Suc d) (shape t))"
      by (simp add: py_pop_def py_position_def)
  qed
  let ?popped = "map (\<lambda>t. take d (shape t) @ drop (Suc d) (shape t)) ts"
  have unf: "broadcast_tensors_for_cat ts dim
      = and_then (broadcast_shapes ?popped) (\<lambda>broadcast_shape.
        and_then (map_err (\<lambda>(t, d). and_then (py_index (shape t) dim)
                                        (\<lambda>c. Inr (py_insert broadcast_shape d c)))
                    (zip ts ?dims)) (\<lambda>final_shapes.
          map_err (\<lambda>(t, s). expand t s) (zip ts final_shapes)))"
    unfolding broadcast_tensors_for_cat_def Let_def pops
    by (simp only: and_then_def sum.case)
  from res obtain B where
    B: "broadcast_shapes ?popped = Inr B" and
    res2: "and_then (map_err (\<lambda>(t, d). and_then (py_index (shape t) dim)
                                        (\<lambda>c. Inr (py_insert B d c)))
                    (zip ts ?dims)) (\<lambda>final_shapes.
          map_err (\<lambda>(t, s). expand t s) (zip ts final_shapes)) = Inr ts'"
    unfolding unf by (cases "broadcast_shapes ?popped") (simp_all add: and_then_def)
  from res2 obtain finals where
    finals: "map_err (\<lambda>(t, d). and_then (py_index (shape t) dim) (\<lambda>c. Inr (py_insert B d c)))
               (zip ts ?dims) = Inr finals" and
    ex: "map_err (\<lambda>(t, s). expand t s) (zip ts finals) = Inr ts'"
    by (cases "map_err (\<lambda>(t, d). and_then (py_index (shape t) dim) (\<lambda>c. Inr (py_insert B d c)))
               (zip ts ?dims)") (simp_all add: and_then_def)
  have lenB: "length B = n - 1"
  proof (rule broadcast_shapes_length [OF B])
    show "map (\<lambda>t. take d (shape t) @ drop (Suc d) (shape t)) ts \<noteq> []"
      using ne by simp
    show "\<forall>s \<in> set (map (\<lambda>t. take d (shape t) @ drop (Suc d) (shape t)) ts). length s = n - 1"
      using rank dn by auto
  qed
  have "map_err (\<lambda>(t, d). and_then (py_index (shape t) dim) (\<lambda>c. Inr (py_insert B d c)))
          (zip ts ?dims)
      = Inr (map (\<lambda>t. take d B @ [shape t ! d] @ drop d B) ts)"
    unfolding z map_err_map
  proof (rule map_err_total)
    fix t assume "t \<in> set ts"
    with rank have n: "length (shape t) = n" by simp
    have "py_index (shape t) dim = Inr (shape t ! d)"
      using n lo hi d by (auto simp: py_index_def py_position_def add.commute)
    moreover have "py_insert B ?dd (shape t ! d) = take d B @ [shape t ! d] @ drop d B"
      using dd dn lenB by (simp add: py_insert_def Let_def min_def)
    ultimately show "(case (t, ?dd) of (t, d) \<Rightarrow>
          and_then (py_index (shape t) dim) (\<lambda>c. Inr (py_insert B d c)))
        = Inr (take d B @ [shape t ! d] @ drop d B)"
      by (simp add: and_then_def)
  qed
  with finals have fs: "finals = map (\<lambda>t. take d B @ [shape t ! d] @ drop d B) ts"
    by simp
  from map_err_Inr [OF ex] have
    len: "length ts' = length (zip ts finals)" and
    each: "\<And>i. i < length (zip ts finals) \<Longrightarrow>
             (case zip ts finals ! i of (t, s) \<Rightarrow> expand t s) = Inr (ts' ! i)"
    by auto
  have "shape (ts' ! i) = take d B @ [shape (ts ! i) ! d] @ drop d B" if "i < length ts" for i
  proof -
    from that fs have "zip ts finals ! i = (ts ! i, take d B @ [shape (ts ! i) ! d] @ drop d B)"
      by simp
    with each [of i] that fs
    have "expand (ts ! i) (take d B @ [shape (ts ! i) ! d] @ drop d B) = Inr (ts' ! i)"
      by simp
    then show ?thesis by (rule expand_shape)
  qed
  moreover have "length ts' = length ts"
    using len fs by simp
  ultimately show ?thesis
    using B lenB by blast
qed

lemma and_then_Inr:
  "and_then m f = Inr y \<Longrightarrow> \<exists>x. m = Inr x \<and> f x = Inr y"
  by (cases m) (simp_all add: and_then_def)

lemma length_py_insert: "length (py_insert xs i x) = Suc (length xs)"
  by (simp add: py_insert_def Let_def)

text \<open>All tensors that \<open>_broadcast_tensors_for_cat\<close> returns have the same number of dimensions.\<close>

lemma broadcast_tensors_for_cat_ranks:
  fixes ts :: "'a tensor list"
  assumes "broadcast_tensors_for_cat ts dim = Inr ts'"
  shows "\<exists>m. \<forall>t' \<in> set ts'. length (shape t') = Suc m"
proof -
  let ?dims = "if 0 \<le> dim then replicate (length ts) dim
               else map (\<lambda>t. int (length (shape t)) + dim) ts"
  from and_then_Inr [OF assms [unfolded broadcast_tensors_for_cat_def Let_def]]
  obtain popped where
    r1: "and_then (broadcast_shapes popped) (\<lambda>broadcast_shape.
         and_then (map_err (\<lambda>(t, d). and_then (py_index (shape t) dim)
                                        (\<lambda>c. Inr (py_insert broadcast_shape d c)))
                     (zip ts ?dims)) (\<lambda>final_shapes.
           map_err (\<lambda>(t, s). expand t s) (zip ts final_shapes))) = Inr ts'"
    by blast
  from and_then_Inr [OF r1] obtain B where
    r2: "and_then (map_err (\<lambda>(t, d). and_then (py_index (shape t) dim)
                                        (\<lambda>c. Inr (py_insert B d c)))
                     (zip ts ?dims)) (\<lambda>final_shapes.
           map_err (\<lambda>(t, s). expand t s) (zip ts final_shapes)) = Inr ts'"
    by blast
  from and_then_Inr [OF r2] obtain finals where
    fin: "map_err (\<lambda>(t, d). and_then (py_index (shape t) dim) (\<lambda>c. Inr (py_insert B d c)))
            (zip ts ?dims) = Inr finals" and
    ex: "map_err (\<lambda>(t, s). expand t s) (zip ts finals) = Inr ts'"
    by blast
  have lf: "length (finals ! i) = Suc (length B)" if "i < length finals" for i
  proof -
    from map_err_Inr [OF fin] that have
      "(case zip ts ?dims ! i of (t, d) \<Rightarrow>
          and_then (py_index (shape t) dim) (\<lambda>c. Inr (py_insert B d c))) = Inr (finals ! i)"
      by simp
    moreover obtain t d where "zip ts ?dims ! i = (t, d)"
      by (cases "zip ts ?dims ! i")
    ultimately have
      "and_then (py_index (shape t) dim) (\<lambda>c. Inr (py_insert B d c)) = Inr (finals ! i)"
      by simp
    from and_then_Inr [OF this] obtain c where "py_insert B d c = finals ! i"
      by auto
    then have "length (finals ! i) = length (py_insert B d c)" by simp
    then show ?thesis by (simp only: length_py_insert)
  qed
  have "length (shape t') = Suc (length B)" if "t' \<in> set ts'" for t'
  proof -
    from that obtain i where i: "i < length ts'" "ts' ! i = t'"
      by (auto simp: in_set_conv_nth)
    from map_err_Inr [OF ex] i(1) have
      li: "i < length (zip ts finals)" and
      e: "(case zip ts finals ! i of (t, s) \<Rightarrow> expand t s) = Inr (ts' ! i)"
      by simp_all
    from li have "zip ts finals ! i = (ts ! i, finals ! i)" and "i < length finals"
      by simp_all
    with e have "expand (ts ! i) (finals ! i) = Inr (ts' ! i)" by simp
    from expand_shape [OF this] lf [OF \<open>i < length finals\<close>] i(2) show ?thesis by simp
  qed
  then show ?thesis by blast
qed

text \<open>
  Whenever the broadcasting step and the concatenation both return, the tensors that were
  concatenated have one common shape outside the concatenation dimension.
\<close>

lemma cat_of_broadcast_common_shape:
  fixes ts :: "'a tensor list"
  assumes bc: "broadcast_tensors_for_cat ts dim = Inr ts'" and ct: "cat ts' dim = Inr res"
  shows "\<exists>n B. \<forall>t' \<in> set ts'.
           length (shape t') = n \<and>
           take (nat (if dim < 0 then dim + int n else dim)) (shape t')
             @ drop (Suc (nat (if dim < 0 then dim + int n else dim))) (shape t') = B"
proof -
  from broadcast_tensors_for_cat_ranks [OF bc] obtain m where
    rank: "\<And>t'. t' \<in> set ts' \<Longrightarrow> length (shape t') = Suc m"
    by blast
  let ?d = "nat (if dim < 0 then dim + int (Suc m) else dim)"
  show ?thesis
  proof (cases "filter (\<lambda>t. shape t \<noteq> [0]) ts'")
    case Nil
    then have "\<forall>t' \<in> set ts'. shape t' = [0]"
      by (auto simp: filter_empty_conv)
    with rank have "\<forall>t' \<in> set ts'. length (shape t') = Suc m \<and>
        take ?d (shape t') @ drop (Suc ?d) (shape t') = take ?d [0] @ drop (Suc ?d) [0 :: nat]"
      by simp
    then show ?thesis by blast
  next
    case (Cons t0 rest)
    have "t0 \<in> set (filter (\<lambda>t. shape t \<noteq> [0]) ts')"
      using Cons by simp
    then have t0: "t0 \<in> set ts'"
      by simp
    have n: "length (shape t0) = Suc m"
      using rank [OF t0] .
    from ct Cons n have
      rng: "\<not> (dim < - int (Suc m) \<or> int (Suc m) \<le> dim)" and
      same: "\<forall>t \<in> set (t0 # rest). take ?d (shape t) = take ?d (shape t0) \<and>
               drop (Suc ?d) (shape t) = drop (Suc ?d) (shape t0)"
      by (auto simp: cat_def Let_def split: if_splits)
    have d: "?d \<le> m"
      using rng by auto
    have "take ?d (shape t') @ drop (Suc ?d) (shape t') = take ?d (shape t0) @ drop (Suc ?d) (shape t0)"
      if t': "t' \<in> set ts'" for t'
    proof (cases "shape t' = [0]")
      case False
      with t' have "t' \<in> set (filter (\<lambda>t. shape t \<noteq> [0]) ts')"
        by simp
      with Cons have "t' \<in> set (t0 # rest)"
        by simp
      with same have "take ?d (shape t') = take ?d (shape t0)"
        "drop (Suc ?d) (shape t') = drop (Suc ?d) (shape t0)"
        by blast+
      then show ?thesis by (simp only:)
    next
      case True
      with rank [OF t'] have m: "m = 0" by simp
      with d n obtain a where "shape t0 = [a]"
        by (cases "shape t0") auto
      with True m d show ?thesis by simp
    qed
    with rank show ?thesis by blast
  qed
qed

lemma get_tensor_field:
  "field_tensor h d k = Some t \<Longrightarrow> get_tensor h d k = Inr t"
  by (auto simp: field_tensor_def get_tensor_def deref_def
           split: option.splits pyval.splits if_splits)

lemma cat_example_elems:
  fixes xs ys :: "'a list"
  assumes lx: "length xs = 150" and ly: "length ys = 9"
    and i: "i < 10" and j: "j < 3"
  defines "res \<equiv> concat (map (\<lambda>b. take 5 (drop (b * 5) xs)
                                   @ take 3 (drop (b * 3) (concat (replicate 10 ys)))) [0 ..< 30])"
  shows "length res = 240"
    and "c < 5 \<Longrightarrow> res ! (i * 24 + j * 8 + c) = xs ! (i * 15 + j * 5 + c)"
    and "c < 3 \<Longrightarrow> res ! (i * 24 + j * 8 + 5 + c) = ys ! (j * 3 + c)"
proof -
  let ?ys = "concat (replicate 10 ys)"
  let ?f = "\<lambda>b. take 5 (drop (b * 5) xs) @ take 3 (drop (b * 3) ?ys)"
  have lys: "length ?ys = 90"
    using ly by (simp add: length_concat_replicate)
  have lf: "length (?f b) = 8" if "b < 30" for b
    using that lx lys by simp
  have "length (concat (map ?f [0 ..< m])) = m * 8" if "m \<le> 30" for m
    using that
  proof (induction m)
    case 0
    then show ?case by simp
  next
    case (Suc m)
    then show ?case using lf [of m] by simp
  qed
  from this [of 30] show "length res = 240"
    by (simp add: res_def)
  have b: "i * 3 + j < 30"
    using i j by simp
  have idx: "i * 24 + j * 8 + c' = (i * 3 + j) * 8 + c'" for c'
    by simp
  show "res ! (i * 24 + j * 8 + c) = xs ! (i * 15 + j * 5 + c)" if c: "c < 5"
  proof -
    have "res ! ((i * 3 + j) * 8 + c) = ?f (i * 3 + j) ! c"
      unfolding res_def using lf b c by (intro nth_concat_blocks) simp_all
    also have "\<dots> = xs ! ((i * 3 + j) * 5 + c)"
      using c b lx by (simp add: nth_append)
    finally show ?thesis
      by (simp add: idx algebra_simps)
  qed
  show "res ! (i * 24 + j * 8 + 5 + c) = ys ! (j * 3 + c)" if c: "c < 3"
  proof -
    have "res ! ((i * 3 + j) * 8 + (5 + c)) = ?f (i * 3 + j) ! (5 + c)"
      unfolding res_def using lf b c by (intro nth_concat_blocks) simp_all
    also have "\<dots> = ?ys ! ((i * 3 + j) * 3 + c)"
      using c b lx lys by (simp add: nth_append)
    also have "(i * 3 + j) * 3 + c = i * length ys + (j * 3 + c)"
      using ly by simp
    also have "?ys ! (i * length ys + (j * 3 + c)) = ys ! (j * 3 + c)"
      using i j c ly by (intro nth_concat_replicate) simp_all
    finally show ?thesis
      by (simp add: idx algebra_simps)
  qed
qed

text \<open>
  The example of the docstring of the broadcasting step. The two input fields hold
  tensors of shapes \<open>(10, 3, 5)\<close> and \<open>(1, 3, 3)\<close>. A \<open>Cat\<close> along dimension 2 with
  broadcasting returns,
  and the output field is a tensor of shape \<open>(10, 3, 8)\<close> whose entry \<open>(i, j, c)\<close> is entry
  \<open>(i, j, c)\<close> of the first tensor for \<open>c < 5\<close> and entry \<open>(0, j, c - 5)\<close> of the second
  tensor for \<open>c \<ge> 5\<close>, for each of the 10 leading indices \<open>i\<close>.
\<close>

lemma cat_docstring_example:
  assumes "field_tensor h data k1 = Some t1" and "field_tensor h data k2 = Some t2"
    and "shape t1 = [10, 3, 5]" and "shape t2 = [1, 3, 3]"
    and "wf_tensor t1" and "wf_tensor t2"
  shows "\<exists>h' data' t.
           Cat_call \<lparr>cat_input_keys = [k1, k2], cat_output_key = out, cat_dim = 2,
                     cat_broadcast = True\<rparr> h data = Inr (h', data') \<and>
           field_tensor h' data' out = Some t \<and> shape t = [10, 3, 8] \<and> wf_tensor t \<and>
           (\<forall>i < 10. \<forall>j < 3.
              (\<forall>c < 5. elems t ! (i * 24 + j * 8 + c) = elems t1 ! (i * 15 + j * 5 + c)) \<and>
              (\<forall>c < 3. elems t ! (i * 24 + j * 8 + 5 + c) = elems t2 ! (j * 3 + c)))"
proof -
  let ?self = "\<lparr>cat_input_keys = [k1, k2], cat_output_key = out, cat_dim = 2, cat_broadcast = True\<rparr>"
  let ?ys = "concat (replicate 10 (elems t2))"
  let ?res = "\<lparr>shape = [10, 3, 8],
               elems = concat (map (\<lambda>b. take 5 (drop (b * 5) (elems t1)) @ take 3 (drop (b * 3) ?ys))
                                   [0 ..< 30])\<rparr>"
  have l1: "length (elems t1) = 150" and l2: "length (elems t2) = 9"
    using assms(3-6) by (simp_all add: wf_tensor_def numel_def)
  have get: "map_err (get_tensor h data) [k1, k2] = Inr [t1, t2]"
    using get_tensor_field [OF assms(1)] get_tensor_field [OF assms(2)] by simp
  have bc: "broadcast_tensors_for_cat [t1, t2] 2
      = Inr [\<lparr>shape = [10, 3, 5], elems = elems t1\<rparr>, \<lparr>shape = [10, 3, 3], elems = ?ys\<rparr>]"
    by (rule broadcast_10_3_5_with_1_3_3 [OF assms(3-6)])
  have ct: "cat [\<lparr>shape = [10, 3, 5], elems = elems t1\<rparr>, \<lparr>shape = [10, 3, 3], elems = ?ys\<rparr>] 2
      = Inr ?res"
    by (rule cat_10_3_5_with_10_3_3)
  have call: "Cat_call ?self h data = Inr (h @ [?res], data(out \<mapsto> PTensor (length h)))"
    unfolding Cat_call_def by (simp add: get bc ct and_then_def alloc_def del: map_err.simps)
  have ft: "field_tensor (h @ [?res]) (data(out \<mapsto> PTensor (length h))) out = Some ?res"
    by (rule field_tensor_alloc_same)
  have wf: "wf_tensor ?res"
    using cat_example_elems(1) [OF l1 l2, of 0 0] by (simp add: wf_tensor_def numel_def)
  have els: "\<forall>i < 10. \<forall>j < 3.
      (\<forall>c < 5. elems ?res ! (i * 24 + j * 8 + c) = elems t1 ! (i * 15 + j * 5 + c)) \<and>
      (\<forall>c < 3. elems ?res ! (i * 24 + j * 8 + 5 + c) = elems t2 ! (j * 3 + c))"
    using cat_example_elems(2,3) [OF l1 l2] by simp
  from call ft wf els
  show ?thesis
    by (intro exI [of _ "h @ [?res]"] exI [of _ "data(out \<mapsto> PTensor (length h))"]
          exI [of _ ?res]) simp
qed

text \<open>
  C3. Inputs of different rank. The docstring of the broadcasting step asks of the input
  shapes only that they can be broadcast once the concatenation dimension is taken out.
  The shapes \<open>(2, 3, 5)\<close> and \<open>(1, 5)\<close> with dimension \<open>-2\<close> are such inputs: without the
  concatenation dimension they are \<open>(2, 5)\<close> and \<open>(5)\<close>. The broadcasting step returns
  tensors of shapes \<open>(2, 3, 5)\<close> and \<open>(1, 2, 5)\<close>: it puts the concatenation dimension back
  at the position counted in each tensor's own rank, so the two tensors have no common
  shape outside the concatenation dimension, and the call of \<open>Cat\<close> ends in the
  \<open>RuntimeError\<close> of \<open>torch.cat\<close>.
\<close>

theorem cat_broadcast_of_different_ranks_raises:
  "broadcast_tensors_for_cat
     [\<lparr>shape = [2, 3, 5], elems = replicate 30 (0 :: int)\<rparr>,
      \<lparr>shape = [1, 5], elems = [1, 2, 3, 4, 5]\<rparr>] (- 2)
     = Inr [\<lparr>shape = [2, 3, 5], elems = replicate 30 0\<rparr>,
            \<lparr>shape = [1, 2, 5], elems = [1, 2, 3, 4, 5, 1, 2, 3, 4, 5]\<rparr>]
   \<and> Cat_call \<lparr>cat_input_keys = [''a'', ''b''], cat_output_key = ''out'', cat_dim = - 2,
               cat_broadcast = True\<rparr>
       [\<lparr>shape = [2, 3, 5], elems = replicate 30 (0 :: int)\<rparr>,
        \<lparr>shape = [1, 5], elems = [1, 2, 3, 4, 5]\<rparr>]
       [''a'' \<mapsto> PTensor 0, ''b'' \<mapsto> PTensor 1]
     = Inl RuntimeError"
proof -
  let ?t1 = "\<lparr>shape = [2, 3, 5], elems = replicate 30 (0 :: int)\<rparr>"
  let ?t2 = "\<lparr>shape = [1, 5], elems = [1, 2, 3, 4, 5 :: int]\<rparr>"
  let ?t2' = "\<lparr>shape = [1, 2, 5], elems = [1, 2, 3, 4, 5, 1, 2, 3, 4, 5 :: int]\<rparr>"
  have bc: "broadcast_tensors_for_cat [?t1, ?t2] (- 2) = Inr [?t1, ?t2']"
    by code_simp
  have ct: "cat [?t1, ?t2'] (- 2) = Inl RuntimeError"
    by code_simp
  have get: "map_err (get_tensor [?t1, ?t2] [''a'' \<mapsto> PTensor 0, ''b'' \<mapsto> PTensor 1]) [''a'', ''b'']
      = Inr [?t1, ?t2]"
    by (simp add: get_tensor_def deref_def)
  have "Cat_call \<lparr>cat_input_keys = [''a'', ''b''], cat_output_key = ''out'', cat_dim = - 2,
                  cat_broadcast = True\<rparr> [?t1, ?t2] [''a'' \<mapsto> PTensor 0, ''b'' \<mapsto> PTensor 1]
      = Inl RuntimeError"
    unfolding Cat_call_def
    by (simp only: Cat.select_convs get bc ct and_then_def sum.case if_True)
  with bc show ?thesis
    by (intro conjI)
qed

subsection \<open>AppendConstant\<close>

text \<open>
  Along the last dimension the transform does prepend a constant column: every row of the
  tensor gets the constant in front.
\<close>

lemma cat_pair:
  assumes "shape x \<noteq> [0]" and "shape y \<noteq> [0]"
    and "length (shape x) = Suc m" and "length (shape y) = Suc m" and "d \<le> m"
    and "dim = int d \<or> dim = int d - int (Suc m)"
    and "take d (shape y) = take d (shape x)"
    and "drop (Suc d) (shape y) = drop (Suc d) (shape x)"
  shows "cat [x, y] dim
       = Inr \<lparr>shape = (shape x)[d := shape x ! d + shape y ! d],
              elems = concat (map (\<lambda>i.
                        take (numel (drop d (shape x))) (drop (i * numel (drop d (shape x))) (elems x))
                        @ take (numel (drop d (shape y))) (drop (i * numel (drop d (shape y))) (elems y)))
                      [0 ..< numel (take d (shape x))])\<rparr>"
proof -
  have d: "nat (if dim < 0 then dim + int (Suc m) else dim) = d"
    using assms(5,6) by auto
  have rng: "\<not> (dim < - int (Suc m) \<or> int (Suc m) \<le> dim)"
    using assms(5,6) by auto
  have f: "filter (\<lambda>t. shape t \<noteq> [0]) [x, y] = [x, y]"
    using assms(1,2) by simp
  show ?thesis
    unfolding cat_def f list.case Let_def assms(3) d
    using rng assms(3,4,7,8) by simp
qed

lemma append_constant_last_dim:
  fixes v :: "'a::monoid_mult tensor"
  assumes s: "shape v = b @ [n]" and dim: "dim = - 1 \<or> dim = int (length b)"
  shows "cat [extra_col c v, v] dim
       = Inr \<lparr>shape = b @ [Suc n],
              elems = concat (map (\<lambda>i. c # take n (drop (i * n) (elems v))) [0 ..< numel b])\<rparr>"
proof -
  let ?e = "extra_col c v"
  have se: "shape ?e = b @ [1]" and ee: "elems ?e = replicate (numel b) c"
    by (simp_all add: extra_col_def s)
  have blk: "take (Suc 0) (drop i (replicate (numel b) c)) = [c]" if "i < numel b" for i
    using that by (cases "numel b - i") simp_all
  show ?thesis
  proof (cases "shape v = [0]")
    case True
    with s have b: "b = []" "n = 0" by (auto simp: append_eq_Cons_conv)
    have "filter (\<lambda>t. shape t \<noteq> [0]) [?e, v] = [?e]"
      using True se b by simp
    then show ?thesis
      using dim se ee b by (auto simp: cat_def Let_def numel_def)
  next
    case False
    have "cat [?e, v] dim
        = Inr \<lparr>shape = (shape ?e)[length b := shape ?e ! length b + shape v ! length b],
               elems = concat (map (\<lambda>i.
                         take (numel (drop (length b) (shape ?e)))
                              (drop (i * numel (drop (length b) (shape ?e))) (elems ?e))
                         @ take (numel (drop (length b) (shape v)))
                              (drop (i * numel (drop (length b) (shape v))) (elems v)))
                       [0 ..< numel (take (length b) (shape ?e))])\<rparr>"
      using False dim by (intro cat_pair [where m = "length b"]) (auto simp: se s)
    also have "(shape ?e)[length b := shape ?e ! length b + shape v ! length b] = b @ [Suc n]"
      by (simp add: se s)
    also have "numel (take (length b) (shape ?e)) = numel b"
      by (simp add: se)
    also have "map (\<lambda>i. take (numel (drop (length b) (shape ?e)))
                              (drop (i * numel (drop (length b) (shape ?e))) (elems ?e))
                         @ take (numel (drop (length b) (shape v)))
                              (drop (i * numel (drop (length b) (shape v))) (elems v)))
                  [0 ..< numel b]
        = map (\<lambda>i. c # take n (drop (i * n) (elems v))) [0 ..< numel b]"
      by (rule map_cong [OF refl]) (simp add: se s ee numel_def blk)
    finally show ?thesis .
  qed
qed

text \<open>
  C6 at dimension 0. On a tensor of shape \<open>(2, 3)\<close> with \<open>dim = 0\<close> the call raises: the
  constant column has shape \<open>(2, 1)\<close>, which does not agree with \<open>(2, 3)\<close> outside
  dimension 0. On a tensor of shape \<open>(2, 1)\<close> with \<open>dim = 0\<close> the call returns a tensor
  of shape \<open>(4, 1)\<close>, two constant rows in front of the two rows of the input: the size
  along the dimension has grown by two, not by one.
\<close>

theorem append_constant_dim_0_raises_or_adds_two_rows:
  "AppendConstant_call \<lparr>ac_keys = [''x''], ac_dim = 0, ac_const = 1\<rparr>
     [\<lparr>shape = [2, 3], elems = [1, 2, 3, 4, 5, 6 :: int]\<rparr>] [''x'' \<mapsto> PTensor 0]
   = Inl RuntimeError
   \<and> AppendConstant_call \<lparr>ac_keys = [''x''], ac_dim = 0, ac_const = 1\<rparr>
     [\<lparr>shape = [2, 1], elems = [7, 8 :: int]\<rparr>] [''x'' \<mapsto> PTensor 0]
   = Inr ([\<lparr>shape = [2, 1], elems = [7, 8]\<rparr>, \<lparr>shape = [4, 1], elems = [1, 1, 7, 8]\<rparr>],
          [''x'' \<mapsto> PTensor 1])"
  by (simp add: AppendConstant_call_def ac_step_def get_tensor_def deref_def and_then_def
        extra_col_def cat_def numel_def alloc_def Let_def upt_conv_Cons numeral_2_eq_2)

subsection \<open>Source fields of FixedLengthSequences and of the composite\<close>


























end
